theory Spec2Isabelle
  imports Complex_Main "HOL-Library.AList"
begin

section \<open>Model of the bootstrap core\<close>

text \<open>
  The theory embeds the application bootstrap \<^verbatim>\<open>appInit\<close>, its command-path registry
  \<^verbatim>\<open>app.ext.addCommandPath\<close>, the two error middlewares it installs, \<^verbatim>\<open>makeID\<close>,
  the \<^verbatim>\<open>statusText\<close> table and \<^verbatim>\<open>getServerSettings\<close>. Mutation is explicit state
  passing, a thrown \<^verbatim>\<open>Error\<close> is a value, and every loop is a recursive function.
\<close>

subsection \<open>Errors and the objects of the command trie\<close>

text \<open>A thrown \<^verbatim>\<open>new Error(message)\<close>.\<close>

datatype jsError = JSError (errMessage: string)

text \<open>
  The values that \<^verbatim>\<open>addCommandPath\<close> stores under \<^verbatim>\<open>app.ext.commandPaths\<close>: a plain
  object \<^verbatim>\<open>{}\<close> (\<open>callable = None\<close>) or the arrow function \<^verbatim>\<open>() => parameters\<close>
  (\<open>callable = Some parameters\<close>), each with the properties \<^verbatim>\<open>addCommandPath\<close> has put on it,
  in insertion order. Child segments and the reserved key \<^verbatim>\<open>_parameters\<close> live in the
  same property namespace, as in the source. The payload type \<open>'p\<close> stands for the
  reference to the parameters object: the trie stores and returns that very value.
\<close>

datatype 'p jsobj = JSObj (callable: "'p option") (props: "(string \<times> 'p jsobj) list")

text \<open>The literal \<^verbatim>\<open>{}\<close> and the closure \<^verbatim>\<open>() => parameters\<close>.\<close>

definition emptyObj :: "'p jsobj" where
  "emptyObj = JSObj None []"

definition accessor :: "'p \<Rightarrow> 'p jsobj" where
  "accessor parameters = JSObj (Some parameters) []"

text \<open>
  Besides the properties the registry creates, an object has the members its prototype
  chain supplies (for \<^verbatim>\<open>{}\<close> those of \<^verbatim>\<open>Object.prototype\<close>, for a closure also those of
  \<^verbatim>\<open>Function.prototype\<close> and its own \<^verbatim>\<open>length\<close> and \<^verbatim>\<open>name\<close>). Both \<^verbatim>\<open>pathBit in frontier\<close>
  and a property read see them. The built-in objects belong to the JavaScript runtime,
  not to the source at hand, so which names they supply to an object of either kind is
  a parameter, the \<open>runtime\<close>; \<open>standardMembers\<close> is the one of the language
  standard.
\<close>

datatype kind = PlainObject | ArrowFunction

definition kindOf :: "'p jsobj \<Rightarrow> kind" where
  "kindOf obj = (case callable obj of None \<Rightarrow> PlainObject | Some p \<Rightarrow> ArrowFunction)"

type_synonym runtime = "kind \<Rightarrow> string \<Rightarrow> bool"

definition standardMembers :: runtime where
  "standardMembers k name =
     (name \<in> set [''constructor'', ''__defineGetter__'', ''__defineSetter__'',
                   ''hasOwnProperty'', ''__lookupGetter__'', ''__lookupSetter__'',
                   ''isPrototypeOf'', ''propertyIsEnumerable'', ''toString'', ''valueOf'',
                   ''__proto__'', ''toLocaleString'']
      \<or> (k = ArrowFunction
          \<and> name \<in> set [''length'', ''name'', ''arguments'', ''caller'', ''apply'', ''bind'',
                          ''call'']))"

text \<open>
  The result of a property read \<^verbatim>\<open>obj[k]\<close>: \<^verbatim>\<open>undefined\<close>, an object of the trie, or
  \<open>BuiltIn\<close>, a value that comes from the built-in objects and lies outside the trie.
  \<open>intact\<close> says that no earlier call has reached the built-in objects, which a call
  that does may change (a path through \<^verbatim>\<open>__proto__\<close> writes to \<^verbatim>\<open>Object.prototype\<close>
  itself). An object's own property always wins. For a name it does not own, the read
  is \<^verbatim>\<open>undefined\<close> only when the built-in objects are intact and supply no such member;
  otherwise it is taken to be \<open>BuiltIn\<close>. \<open>hasProp\<close> is \<^verbatim>\<open>k in obj\<close>; \<open>setProp\<close> is
  the assignment \<^verbatim>\<open>obj[k] = v\<close> of an own property, which replaces the value of an
  existing key in place and appends a new key.
\<close>

datatype 'p jsval = Undefined | Object "'p jsobj" | BuiltIn

definition getProp :: "runtime \<Rightarrow> bool \<Rightarrow> 'p jsobj \<Rightarrow> string \<Rightarrow> 'p jsval" where
  "getProp rt intact obj k =
     (case map_of (props obj) k of
        Some v \<Rightarrow> Object v
      | None \<Rightarrow> if intact \<and> \<not> rt (kindOf obj) k then Undefined else BuiltIn)"

definition hasProp :: "runtime \<Rightarrow> bool \<Rightarrow> string \<Rightarrow> 'p jsobj \<Rightarrow> bool" where
  "hasProp rt intact k obj = (getProp rt intact obj k \<noteq> Undefined)"

definition setProp :: "'p jsobj \<Rightarrow> string \<Rightarrow> 'p jsobj \<Rightarrow> 'p jsobj" where
  "setProp obj k v = JSObj (callable obj) (AList.update k v (props obj))"

text \<open>\<^verbatim>\<open>Array.prototype.join\<close> on an array of strings.\<close>

fun join :: "string \<Rightarrow> string list \<Rightarrow> string" where
  "join sep [] = []"
| "join sep [x] = x"
| "join sep (x # y # ys) = x @ sep @ join sep (y # ys)"

text \<open>
  The body of \<^verbatim>\<open>addCommandPath\<close>: the \<^verbatim>\<open>for\<close> loop over the path bits followed by the
  check at the terminal node. The loop moves the \<^verbatim>\<open>frontier\<close> reference down the trie
  and mutates in place; here the same walk rebuilds the objects on the way back. The
  walk ends in one of three ways: the accessor is attached; the terminal node already
  has \<^verbatim>\<open>_parameters\<close> among its own properties and the call throws; or the frontier
  becomes a \<open>BuiltIn\<close> value and the walk leaves the trie. What the code does from
  there (it may return, throw the non-unique error or a \<^verbatim>\<open>TypeError\<close>) depends on the
  built-in objects and is not modelled. The second component is the trie as the walk
  left it (objects created by the loop stay in every case).
\<close>

datatype walkEnd = Attached | NonUnique | LeftTrie

fun walkPath :: "runtime \<Rightarrow> bool \<Rightarrow> string list \<Rightarrow> 'p \<Rightarrow> 'p jsobj \<Rightarrow> walkEnd \<times> 'p jsobj" where
  "walkPath rt intact [] parameters frontier =
     (case getProp rt intact frontier ''_parameters'' of
        Undefined \<Rightarrow> (Attached, setProp frontier ''_parameters'' (accessor parameters))
      | Object v \<Rightarrow> (NonUnique, frontier)
      | BuiltIn \<Rightarrow> (LeftTrie, frontier))"
| "walkPath rt intact (pathBit # rest) parameters frontier =
     (case (if \<not> hasProp rt intact pathBit frontier then Object emptyObj
            else getProp rt intact frontier pathBit) of
        Object child \<Rightarrow>
          (case walkPath rt intact rest parameters child of
             (e, child') \<Rightarrow> (e, setProp frontier pathBit child'))
      | BuiltIn \<Rightarrow> (LeftTrie, frontier)
      | Undefined \<Rightarrow> (LeftTrie, frontier))"

text \<open>
  The registry: the trie under \<^verbatim>\<open>app.ext.commandPaths\<close> together with the flag that the
  built-in objects are intact. A call returns, throws, or escapes into the built-in
  objects; after an escape the flag is off, and the trie then holds the properties the
  objects are known to own.
\<close>

datatype outcome = Returned | Threw jsError | Escaped

record 'p registry =
  trie :: "'p jsobj"
  builtinsIntact :: bool

definition addCommandPath ::
  "runtime \<Rightarrow> string list \<Rightarrow> 'p \<Rightarrow> 'p registry \<Rightarrow> outcome \<times> 'p registry" where
  "addCommandPath rt commandPath parameters reg =
     (case walkPath rt (builtinsIntact reg) commandPath parameters (trie reg) of
        (Attached, t) \<Rightarrow> (Returned, reg\<lparr>trie := t\<rparr>)
      | (NonUnique, t) \<Rightarrow>
          (Threw (JSError (''Non-unique command path: '' @ join ''/'' commandPath)),
           reg\<lparr>trie := t\<rparr>)
      | (LeftTrie, t) \<Rightarrow> (Escaped, \<lparr>trie = t, builtinsIntact = False\<rparr>))"

text \<open>
  Reading a registration back, as a client of the trie does:
  \<^verbatim>\<open>commandPaths[s1]...[sn]._parameters()\<close>, through own properties. \<open>None\<close> when a
  property on the way is not among them or the value under \<^verbatim>\<open>_parameters\<close> is not a
  function.
\<close>

fun nodeAt :: "'p jsobj \<Rightarrow> string list \<Rightarrow> 'p jsobj option" where
  "nodeAt obj [] = Some obj"
| "nodeAt obj (k # ks) =
     (case map_of (props obj) k of None \<Rightarrow> None | Some c \<Rightarrow> nodeAt c ks)"

definition parametersAt :: "'p jsobj \<Rightarrow> string list \<Rightarrow> 'p option" where
  "parametersAt t path =
     (case nodeAt t path of
        None \<Rightarrow> None
      | Some n \<Rightarrow>
          (case map_of (props n) ''_parameters'' of None \<Rightarrow> None | Some f \<Rightarrow> callable f))"

text \<open>
  A sequence of calls on the same registry, each made whatever the outcome of an
  earlier one (the caller catching the error).
\<close>

fun afterCalls :: "runtime \<Rightarrow> (string list \<times> 'p) list \<Rightarrow> 'p registry \<Rightarrow> 'p registry" where
  "afterCalls rt [] reg = reg"
| "afterCalls rt ((path, p) # cs) reg = afterCalls rt cs (snd (addCommandPath rt path p reg))"

text \<open>
  A sequence of calls made one after the other with nothing catching the error, as the
  handler registration of one bootstrap does: the first call that does not return ends
  the sequence. \<open>freshRegistry\<close> is the registry of a new bootstrap.
\<close>

fun addCommandPaths ::
  "runtime \<Rightarrow> (string list \<times> 'p) list \<Rightarrow> 'p registry \<Rightarrow> outcome \<times> 'p registry" where
  "addCommandPaths rt [] reg = (Returned, reg)"
| "addCommandPaths rt ((path, p) # cs) reg =
     (case addCommandPath rt path p reg of
        (Returned, reg1) \<Rightarrow> addCommandPaths rt cs reg1
      | (Threw e, reg1) \<Rightarrow> (Threw e, reg1)
      | (Escaped, reg1) \<Rightarrow> (Escaped, reg1))"

definition freshRegistry :: "'p registry" where
  "freshRegistry = \<lparr>trie = emptyObj, builtinsIntact = True\<rparr>"

subsection \<open>Application state\<close>

text \<open>
  Decoded documents (settings files, package manifests, the handler manifest). The
  codec that reads and writes them is an external library; a file holds the document.
\<close>

datatype json = JNull | JBool bool | JNum int | JStr string | JArr "json list" | JObj "(string \<times> json) list"

text \<open>
  The \<^verbatim>\<open>error\<close> object handed to the error middlewares, with the properties they read
  or write; \<open>None\<close> is \<^verbatim>\<open>undefined\<close>.
\<close>

record requestError =
  message :: string
  stack :: "string option"
  status :: "nat option"
  liqID :: "string option"

text \<open>
  The object pushed onto \<^verbatim>\<open>app.ext.errorsEphemeral\<close>: \<^verbatim>\<open>{ id, message, stack, timestamp }\<close>.
\<close>

record errorRecord =
  recId :: string
  recMessage :: string
  recStack :: "string option"
  timestamp :: int

text \<open>
  \<^verbatim>\<open>app.ext\<close>, with the properties the modelled code reads or writes. \<open>'f\<close> is the type of
  the closures queued in \<^verbatim>\<open>pendingHandlers\<close> and \<^verbatim>\<open>setupMethods\<close>. The two error arrays are
  two separate array literals in the source, hence two fields.
\<close>

record ('p, 'f) appExt =
  commandPaths :: "'p jsobj"
  errorsEphemeral :: "errorRecord list"
  errorsRetained :: "errorRecord list"
  handlers :: "json list"
  localSettings :: json
  pendingHandlers :: "'f list"
  serverHome :: string
  serverSettings :: json
  setupMethods :: "'f list"

subsection \<open>The capture middleware\<close>

text \<open>
  \<^verbatim>\<open>makeID\<close>. \<open>random k\<close> is the value of the \<open>k\<close>-th call of \<^verbatim>\<open>Math.random()\<close> made by this
  invocation, a real number idealising the double; \<^verbatim>\<open>charAt\<close> out of range is the empty
  string. The \<^verbatim>\<open>while\<close> loop is \<open>makeID_loop\<close>.
\<close>

definition characters :: string where
  "characters = ''abcdefghijkmnopqrstuvwxyz023456789''"

definition charAt :: "string \<Rightarrow> int \<Rightarrow> string" where
  "charAt s i = (if 0 \<le> i \<and> i < int (length s) then [s ! nat i] else [])"

function makeID_loop :: "(nat \<Rightarrow> real) \<Rightarrow> nat \<Rightarrow> nat \<Rightarrow> string \<Rightarrow> string" where
  "makeID_loop random len counter result =
     (if counter < len
      then makeID_loop random len (counter + 1)
             (result @ charAt characters \<lfloor>random counter * real (length characters)\<rfloor>)
      else result)"
  by pat_completeness auto
termination
  by (relation "measure (\<lambda>(random, len, counter, result). len - counter)") auto

declare makeID_loop.simps [simp del]

definition makeID :: "nat \<Rightarrow> (nat \<Rightarrow> real) \<Rightarrow> string" where
  "makeID len random = makeID_loop random len 0 []"

text \<open>
  The eviction loop of the capture middleware,
  \<^verbatim>\<open>while (errors.length > 1000 && i < errors.length) { errors.shift(); i += 1 }\<close>,
  started with \<open>i = 0\<close>.
\<close>

function evict :: "nat \<Rightarrow> 'a list \<Rightarrow> 'a list" where
  "evict i errors =
     (if length errors > 1000 \<and> i < length errors then evict (i + 1) (tl errors) else errors)"
  by pat_completeness auto
termination
  by (relation "measure (\<lambda>(i, errors). length errors)") auto

declare evict.simps [simp del]

text \<open>
  The first error middleware (\<^verbatim>\<open>// log errors\<close>). It stamps the error with a fresh ID,
  pushes the record, evicts, writes the error to the console (not modelled) and calls
  \<^verbatim>\<open>next(error)\<close>: the result is the error passed on and the updated \<^verbatim>\<open>app.ext\<close>.
  \<open>now\<close> is the reading of \<^verbatim>\<open>new Date().getTime()\<close>.
\<close>

definition capture ::
  "(nat \<Rightarrow> real) \<Rightarrow> int \<Rightarrow> requestError \<Rightarrow> ('p, 'f) appExt \<Rightarrow> requestError \<times> ('p, 'f) appExt" where
  "capture random now error ext =
     (let errorID = makeID 5 random;
          error1 = error\<lparr>liqID := Some errorID\<rparr>;
          errors = errorsEphemeral ext @
            [\<lparr>recId = errorID, recMessage = message error1, recStack = stack error1,
              timestamp = now\<rparr>]
      in (error1, ext\<lparr>errorsEphemeral := evict 0 errors\<rparr>))"

text \<open>
  A run of \<^verbatim>\<open>Math.random()\<close> that returns 0.5 at every call.
\<close>

definition sameDraws :: "nat \<Rightarrow> real" where
  "sameDraws n = 1 / 2"

subsection \<open>The present middleware\<close>

text \<open>
  The \<^verbatim>\<open>statusText\<close> table; a code without an entry reads as \<^verbatim>\<open>undefined\<close>.
\<close>

definition statusTable :: "(nat \<times> string) list" where
  "statusTable =
     [(400, ''BadRequest''), (401, ''Unauthorized''), (402, ''PaymentRequired''),
      (403, ''Forbidden''), (404, ''NotFound''), (405, ''MethodNotAllowed''),
      (406, ''NotAcceptable''), (407, ''ProxyAuthenticationRequired''),
      (408, ''RequestTimeout''), (409, ''Conflict''), (410, ''Gone''),
      (411, ''LengthRequired''), (412, ''PreconditionFailed''), (413, ''PayloadTooLarge''),
      (414, ''URITooLong''), (415, ''UnsupportedMediaType''), (416, ''RangeNotSatisfiable''),
      (417, ''ExpectationFailed''), (418, ''ImATeapot''), (421, ''MisdirectedRequest''),
      (422, ''UnprocessableEntity''), (423, ''Locked''), (424, ''FailedDependency''),
      (425, ''TooEarly''), (426, ''UpgradeRequired''), (428, ''PreconditionRequired''),
      (429, ''TooManyRequests''), (431, ''RequestHeaderFieldsTooLarge''),
      (451, ''UnavailableForLegalReasons''), (500, ''InternalServerError''),
      (501, ''NotImplemented''), (502, ''BadGateway''), (503, ''ServiceUnavailable''),
      (504, ''GatewayTimeout''), (505, ''HTTPVersionNotSupported''),
      (506, ''VariantAlsoNegotiates''), (507, ''InsufficientStorage''),
      (508, ''LoopDetected''), (509, ''BandwidthLimitExceeded''), (510, ''NotExtended''),
      (511, ''NetworkAuthenticationRequired'')]"

definition statusText :: "nat \<Rightarrow> string option" where
  "statusText code = map_of statusTable code"

text \<open>
  String conversion in a template literal or a concatenation: \<^verbatim>\<open>undefined\<close> prints as
  the word, a number in decimal.
\<close>

definition orUndefined :: "string option \<Rightarrow> string" where
  "orUndefined v = (case v of None \<Rightarrow> ''undefined'' | Some s \<Rightarrow> s)"

definition digitChar :: "nat \<Rightarrow> char" where
  "digitChar d = ''0123456789'' ! d"

fun showNat :: "nat \<Rightarrow> string" where
  "showNat n = (if n < 10 then [digitChar n] else showNat (n div 10) @ [digitChar (n mod 10)])"

declare showNat.simps [simp del]

text \<open>
  \<^verbatim>\<open>error.status || 500\<close> (0 is falsy), the Client/Server/Unknown classification, and
  the truthiness of \<^verbatim>\<open>error.stack\<close>.
\<close>

definition selectStatus :: "requestError \<Rightarrow> nat" where
  "selectStatus error =
     (case status error of None \<Rightarrow> 500 | Some s \<Rightarrow> if s = 0 then 500 else s)"

definition errorSource :: "nat \<Rightarrow> string" where
  "errorSource st =
     (if st \<ge> 400 \<and> st < 500 then ''Client''
      else if st \<ge> 500 \<and> st < 600 then ''Server''
      else ''Unknown'')"

definition truthy :: "string option \<Rightarrow> bool" where
  "truthy v = (case v of None \<Rightarrow> False | Some s \<Rightarrow> s \<noteq> [])"

text \<open>
  The message \<^verbatim>\<open>msg\<close> the second middleware builds before content negotiation.
\<close>

definition composeMessage :: "requestError \<Rightarrow> string" where
  "composeMessage error =
     (let st = selectStatus error;
          msg = ''<error>'' @ errorSource st @ '' error '' @ showNat st @ '': ''
                @ orUndefined (statusText st) @ ''<rst>'' @ [CHR 0x0A, CHR 0x0A]
                @ ''<em>'' @ message error @ ''<rst>'' @ [CHR 0x0A, CHR 0x0A]
      in if liqID error = None \<and> truthy (stack error)
         then msg @ orUndefined (stack error)
         else msg @ ''error ref: <code>/server/errors/'' @ orUndefined (liqID error) @ ''<rst>'')"

text \<open>
  \<^verbatim>\<open>msg.replaceAll(/<[a-z]+>/g, '')\<close>: one scan from left to right. \<open>matchTag\<close> tries the
  pattern at the head of the string and returns what follows the match; the greedy
  \<^verbatim>\<open>[a-z]+\<close> takes the whole run of lower-case letters, and no shorter run can be followed
  by \<^verbatim>\<open>>\<close>. After a match the scan resumes behind it.
\<close>

definition lowerLetter :: "char \<Rightarrow> bool" where
  "lowerLetter c = (c \<in> set ''abcdefghijklmnopqrstuvwxyz'')"

definition matchTag :: "string \<Rightarrow> string option" where
  "matchTag s =
     (case s of
        [] \<Rightarrow> None
      | c # r \<Rightarrow>
          if c = CHR ''<'' \<and> takeWhile lowerLetter r \<noteq> []
          then (case dropWhile lowerLetter r of
                  [] \<Rightarrow> None
                | d # rest \<Rightarrow> if d = CHR ''>'' then Some rest else None)
          else None)"

function stripTags :: "string \<Rightarrow> string" where
  "stripTags [] = []"
| "stripTags (c # cs) =
     (case matchTag (c # cs) of
        Some rest \<Rightarrow> stripTags rest
      | None \<Rightarrow> c # stripTags cs)"
  by pat_completeness auto
termination
proof (relation "measure length")
  show "wf (measure length)" by simp
next
  fix c :: char and cs rest :: string
  assume a: "matchTag (c # cs) = Some rest"
  then obtain d where "dropWhile lowerLetter cs = d # rest"
    by (auto simp: matchTag_def split: if_splits list.splits)
  then have "length rest < length (dropWhile lowerLetter cs)" by simp
  also have "\<dots> \<le> length cs" by (rule length_dropWhile_le)
  finally show "(rest, c # cs) \<in> measure length" by simp
next
  fix c :: char and cs :: string
  show "(cs, c # cs) \<in> measure length" by simp
qed

text \<open>
  The request and response as the middleware uses them: \<open>accepts req t\<close> is the
  truthiness of \<^verbatim>\<open>req.accepts(t)\<close>, decided by the routing library; the response records
  \<^verbatim>\<open>res.status\<close>, \<^verbatim>\<open>res.setHeader('content-type', _)\<close> and \<^verbatim>\<open>res.send\<close>.
\<close>

record request =
  accepts :: "string \<Rightarrow> bool"

record response =
  headersSent :: bool
  statusCode :: nat
  contentType :: "string option"
  body :: "string option"

text \<open>
  The second error middleware (\<^verbatim>\<open>// generate user response\<close>). The second component is
  \<open>Some error\<close> when the middleware calls \<^verbatim>\<open>next(error)\<close>, deferring to default delivery.
\<close>

definition present ::
  "requestError \<Rightarrow> request \<Rightarrow> response \<Rightarrow> response \<times> requestError option" where
  "present error req res =
     (if headersSent res then (res, Some error)
      else
        let res1 = res\<lparr>statusCode := selectStatus error\<rparr>;
            msg = composeMessage error
        in if accepts req ''html'' then (res1, Some error)
           else if accepts req ''text/terminal''
           then (res1\<lparr>headersSent := True, contentType := Some ''text/terminal'',
                       body := Some msg\<rparr>, None)
           else (res1\<lparr>headersSent := True, contentType := Some ''text/plain'',
                      body := Some (stripTags msg)\<rparr>, None))"

text \<open>
  Both middlewares in their installation order, for one exception.
\<close>

definition errorPipeline ::
  "(nat \<Rightarrow> real) \<Rightarrow> int \<Rightarrow> requestError \<Rightarrow> request \<Rightarrow> response \<Rightarrow> ('p, 'f) appExt
     \<Rightarrow> ('p, 'f) appExt \<times> response \<times> requestError option" where
  "errorPipeline random now error req res ext =
     (case capture random now error ext of
        (error1, ext1) \<Rightarrow> (ext1, present error1 req res))"

text \<open>
  The \<^verbatim>\<open>app.ext\<close> literal of \<^verbatim>\<open>appInit\<close>: empty trie, empty arrays, empty local settings,
  the given server home and server settings.
\<close>

definition initialExt :: "string \<Rightarrow> json \<Rightarrow> ('p, 'f) appExt" where
  "initialExt home settings =
     \<lparr>commandPaths = emptyObj, errorsEphemeral = [], errorsRetained = [], handlers = [],
      localSettings = JObj [], pendingHandlers = [], serverHome = home,
      serverSettings = settings, setupMethods = []\<rparr>"

text \<open>
  Tags as the pattern \<^verbatim>\<open>/<[a-z]+>/\<close> sees them: \<open>hasTag s\<close> holds when the pattern matches
  somewhere in \<open>s\<close>. One pass of \<^verbatim>\<open>replaceAll\<close> can itself bring a tag together out of the
  text around a removed one (\<^verbatim>\<open><<em>em>\<close> leaves \<^verbatim>\<open><em>\<close>); \<open>nested s\<close> holds when \<open>s\<close>
  has a \<^verbatim>\<open><\<close> that is followed, after lower-case letters only, by another \<^verbatim>\<open><\<close>, the
  only shape from which that can happen.
\<close>

definition nestedAt :: "string \<Rightarrow> bool" where
  "nestedAt s =
     (case s of
        [] \<Rightarrow> False
      | c # r \<Rightarrow>
          c = CHR ''<'' \<and> (case dropWhile lowerLetter r of
                              [] \<Rightarrow> False
                            | d # rest \<Rightarrow> d = CHR ''<''))"

fun nested :: "string \<Rightarrow> bool" where
  "nested [] = False"
| "nested (c # cs) = (nestedAt (c # cs) \<or> nested cs)"

fun hasTag :: "string \<Rightarrow> bool" where
  "hasTag [] = False"
| "hasTag (c # cs) = (matchTag (c # cs) \<noteq> None \<or> hasTag cs)"

text \<open>
  The body for plain-text clients, written out from the specification's sentence: the
  composed message without the tags the middleware puts in, the error's own message,
  stack and ID each having gone through the same removal. To be compared with what
  \<open>stripTags\<close> computes on the composed message. \<open>ownTail\<close> is the text of the error that
  ends the message: the stack when there is no ID and the stack is truthy, the ID
  otherwise.
\<close>

definition plainBody :: "requestError \<Rightarrow> string" where
  "plainBody error =
     (let st = selectStatus error;
          msg = errorSource st @ '' error '' @ showNat st @ '': ''
                @ orUndefined (statusText st) @ [CHR 0x0A, CHR 0x0A]
                @ stripTags (message error) @ [CHR 0x0A, CHR 0x0A]
      in if liqID error = None \<and> truthy (stack error)
         then msg @ stripTags (orUndefined (stack error))
         else msg @ ''error ref: /server/errors/'' @ stripTags (orUndefined (liqID error)))"

definition ownTail :: "requestError \<Rightarrow> string" where
  "ownTail error =
     (if liqID error = None \<and> truthy (stack error) then orUndefined (stack error)
      else orUndefined (liqID error))"

subsection \<open>Files and server settings\<close>

text \<open>
  The file system maps a path to the document stored there. \<open>pathJoin\<close> is
  \<^verbatim>\<open>fsPath.join\<close> for a directory path and a file name that need no normalisation;
  \<open>falsy\<close> is JavaScript falsiness of a decoded document.
\<close>

type_synonym fileSystem = "string \<Rightarrow> json option"

definition pathJoin :: "string \<Rightarrow> string \<Rightarrow> string" where
  "pathJoin dir name = dir @ ''/'' @ name"

definition falsy :: "json \<Rightarrow> bool" where
  "falsy v = (v = JNull \<or> v = JBool False \<or> v = JNum 0 \<or> v = JStr [])"

text \<open>
  \<^verbatim>\<open>getServerSettings\<close>. The function is declared with no parameter,
  \<^verbatim>\<open>const getServerSettings = () => { ... }\<close>, and builds its path from \<^verbatim>\<open>getLiqHome()\<close>;
  \<open>arguments\<close> are the actual arguments of a call, which the body never reads, and
  \<open>liqHome\<close> is the value \<^verbatim>\<open>getLiqHome()\<close> returns (that function is imported from a
  module outside the source at hand, so its result is a parameter).
\<close>

definition getServerSettings :: "string list \<Rightarrow> string \<Rightarrow> fileSystem \<Rightarrow> json \<times> fileSystem" where
  "getServerSettings arguments liqHome fs =
     (let serverSettingsPath = pathJoin liqHome ''server-settings.yaml''
      in case fs serverSettingsPath of
           Some doc \<Rightarrow> (if falsy doc then JObj [] else doc, fs)
         | None \<Rightarrow>
             (let serverSettings = JObj [(''registries'', JArr [])]
              in (serverSettings, fs(serverSettingsPath \<mapsto> serverSettings))))"

subsection \<open>The bootstrap appInit\<close>

text \<open>
  The options of \<^verbatim>\<open>appInit\<close> that its own control flow reads; the others are handed
  on to the collaborators.
\<close>

record options =
  apiSpecPath :: "string option"
  noAPIUpdate :: bool
  pluginPaths :: "string list option"
  serverHome :: "string option"
  skipCorePlugins :: bool

text \<open>
  What \<^verbatim>\<open>appInit\<close> does to its surroundings, in order: \<^verbatim>\<open>app.use\<close> of a middleware,
  \<^verbatim>\<open>reporter.log\<close>, the calls of \<^verbatim>\<open>initModel\<close>, \<^verbatim>\<open>registerHandlers\<close>, \<^verbatim>\<open>loadPlugins\<close>,
  \<^verbatim>\<open>loadPlugin\<close> and \<^verbatim>\<open>initServerSettings\<close>, the call of a pending handler, the
  construction of the dependency runner with its \<^verbatim>\<open>enqueue\<close>, \<^verbatim>\<open>complete\<close> and \<^verbatim>\<open>await\<close>,
  and \<^verbatim>\<open>fs.writeFile\<close>.
\<close>

datatype 'f event =
    InitModel
  | Use string
  | Log string
  | RegisterHandlers string
  | LoadPlugins
  | LoadPlugin string
  | PendingHandler 'f
  | InitServerSettings
  | NewDependencyRunner
  | Enqueue 'f
  | Complete
  | Await
  | WriteFile string json

text \<open>
  The surroundings of a bootstrap: the files and the trace of events so far.
\<close>

record 'f world =
  files :: fileSystem
  events :: "'f event list"

text \<open>
  The functions \<^verbatim>\<open>appInit\<close> imports from modules outside the source at hand are
  parameters: each may change \<^verbatim>\<open>app.ext\<close> (push handlers, pending handlers, setup
  methods, register command paths) and the files, or throw. \<open>depRunnerAwait\<close> is what
  awaiting the dependency runner amounts to for the setup methods enqueued.
\<close>

type_synonym ('p, 'f) collaborator =
  "('p, 'f) appExt \<Rightarrow> fileSystem \<Rightarrow> (jsError \<times> fileSystem) + (('p, 'f) appExt \<times> fileSystem)"

record ('p, 'f) collaborators =
  getLiqHome :: string
  registerHandlers :: "('p, 'f) collaborator"
  loadPlugins :: "('p, 'f) collaborator"
  loadPlugin :: "string \<Rightarrow> json \<Rightarrow> ('p, 'f) collaborator"
  initServerSettings :: "('p, 'f) collaborator"
  depRunnerAwait :: "'f list \<Rightarrow> ('p, 'f) collaborator"

text \<open>
  A bootstrap either throws, leaving the world as it is then, or returns the
  application (its \<^verbatim>\<open>app.ext\<close>) and the world.
\<close>

type_synonym ('p, 'f) bootResult =
  "(jsError \<times> 'f world) + (('p, 'f) appExt \<times> 'f world)"

text \<open>
  Appending to the trace; calling a collaborator, which records the call and threads
  \<^verbatim>\<open>app.ext\<close> and the files through it; sequencing that stops at the first throw.
\<close>

definition emit :: "'f event list \<Rightarrow> 'f world \<Rightarrow> 'f world" where
  "emit es w = w\<lparr>events := events w @ es\<rparr>"

definition callOut ::
  "'f event \<Rightarrow> ('p, 'f) collaborator \<Rightarrow> ('p, 'f) appExt \<times> 'f world \<Rightarrow> ('p, 'f) bootResult" where
  "callOut ev f s =
     (case s of (x, w) \<Rightarrow>
        (case f x (files w) of
           Inl (e, fs1) \<Rightarrow> Inl (e, (emit [ev] w)\<lparr>files := fs1\<rparr>)
         | Inr (x1, fs1) \<Rightarrow> Inr (x1, (emit [ev] w)\<lparr>files := fs1\<rparr>)))"

definition andThen :: "'e + 'a \<Rightarrow> ('a \<Rightarrow> 'e + 'b) \<Rightarrow> 'e + 'b" where
  "andThen r f = (case r of Inl e \<Rightarrow> Inl e | Inr a \<Rightarrow> f a)"

text \<open>
  The loop over \<^verbatim>\<open>pluginPaths\<close>: read and parse the package manifest of the directory
  (a missing file throws), then \<^verbatim>\<open>loadPlugin\<close>.
\<close>

fun loadPluginDirs ::
  "('p, 'f) collaborators \<Rightarrow> string list \<Rightarrow> ('p, 'f) appExt \<times> 'f world \<Rightarrow> ('p, 'f) bootResult" where
  "loadPluginDirs c [] s = Inr s"
| "loadPluginDirs c (pluginDir # rest) s =
     (case files (snd s) (pathJoin pluginDir ''package.json'') of
        None \<Rightarrow>
          Inl (JSError (''ENOENT: no such file or directory, open ''
                 @ pathJoin pluginDir ''package.json''), snd s)
      | Some packageJSON \<Rightarrow>
          andThen (callOut (LoadPlugin pluginDir) (loadPlugin c pluginDir packageJSON) s)
            (loadPluginDirs c rest))"

text \<open>
  Handler loading: the core handlers, the plugins of the plugin directory unless
  \<^verbatim>\<open>skipCorePlugins\<close> is \<^verbatim>\<open>true\<close>, then the explicit plugin paths.
\<close>

definition loadHandlers ::
  "('p, 'f) collaborators \<Rightarrow> options \<Rightarrow> ('p, 'f) appExt \<times> 'f world \<Rightarrow> ('p, 'f) bootResult" where
  "loadHandlers c opts s =
     andThen (callOut (RegisterHandlers ''core'') (registerHandlers c)
                (fst s, emit [Log ''Loading core handlers...''] (snd s)))
       (\<lambda>s1. andThen (if skipCorePlugins opts then Inr s1
                        else callOut LoadPlugins (loadPlugins c) s1)
          (\<lambda>s2. case pluginPaths opts of
                   None \<Rightarrow> Inr s2
                 | Some dirs \<Rightarrow> loadPluginDirs c dirs s2))"

text \<open>
  \<^verbatim>\<open>apiSpecPath || fsPath.join(serverHome, 'core-api.json')\<close>, and the final step that
  serialises \<^verbatim>\<open>app.ext.handlers\<close> to that file unless \<^verbatim>\<open>noAPIUpdate\<close> is \<^verbatim>\<open>true\<close>.
\<close>

definition apiSpecFile :: "options \<Rightarrow> string \<Rightarrow> string" where
  "apiSpecFile opts home =
     (case apiSpecPath opts of
        None \<Rightarrow> pathJoin home ''core-api.json''
      | Some p \<Rightarrow> if p = [] then pathJoin home ''core-api.json'' else p)"

definition writeManifest :: "options \<Rightarrow> string \<Rightarrow> ('p, 'f) appExt \<times> 'f world \<Rightarrow> ('p, 'f) appExt \<times> 'f world" where
  "writeManifest opts home s =
     (case s of (x, w) \<Rightarrow>
        if noAPIUpdate opts then (x, w)
        else (x, (emit [Log ''Registering API...'',
                        WriteFile (apiSpecFile opts home) (JArr (handlers x))] w)
                   \<lparr>files := (files w)(apiSpecFile opts home \<mapsto> JArr (handlers x))\<rparr>))"

text \<open>
  After loading: every pending handler is called (a pending handler is a closure
  built by \<^verbatim>\<open>registerHandlers\<close>; its call is an event and it leaves
  \<^verbatim>\<open>app.ext.pendingHandlers\<close> alone), the two error middlewares are installed, the
  server settings are initialised, the setup methods are enqueued into a new dependency
  runner, which is completed and awaited, and the manifest is written.
\<close>

definition finishInit ::
  "('p, 'f) collaborators \<Rightarrow> options \<Rightarrow> string \<Rightarrow> ('p, 'f) appExt \<times> 'f world \<Rightarrow> ('p, 'f) bootResult" where
  "finishInit c opts home s =
     andThen (callOut InitServerSettings (initServerSettings c)
                (fst s, emit (map PendingHandler (pendingHandlers (fst s))
                              @ [Use ''capture'', Use ''present'']) (snd s)))
       (\<lambda>s1. andThen (callOut Await (depRunnerAwait c (setupMethods (fst s1)))
                         (fst s1, emit ([NewDependencyRunner]
                                        @ map Enqueue (setupMethods (fst s1))
                                        @ [Complete]) (snd s1)))
          (\<lambda>s2. Inr (writeManifest opts home s2)))"

text \<open>
  The start of \<^verbatim>\<open>appInit\<close> once \<^verbatim>\<open>serverHome\<close> is known: model, body parsers, and the
  \<^verbatim>\<open>app.ext\<close> literal, whose \<^verbatim>\<open>serverSettings\<close> is the result of the call
  \<^verbatim>\<open>getServerSettings(serverHome)\<close> and whose \<^verbatim>\<open>localSettings\<close> is read from
  \<^verbatim>\<open>local-settings.yaml\<close> under \<^verbatim>\<open>serverHome\<close> when that file exists.
\<close>

definition startState ::
  "('p, 'f) collaborators \<Rightarrow> string \<Rightarrow> 'f world \<Rightarrow> ('p, 'f) appExt \<times> 'f world" where
  "startState c home w =
     (let w1 = emit [InitModel, Use ''express.json'', Use ''express.urlencoded'',
                     Use ''fileUpload''] w
      in case getServerSettings [home] (getLiqHome c) (files w1) of
           (settings, fs1) \<Rightarrow>
             ((initialExt home settings)
                \<lparr>localSettings :=
                   (case fs1 (pathJoin home ''local-settings.yaml'') of
                      Some doc \<Rightarrow> doc
                    | None \<Rightarrow> JObj [])\<rparr>,
              w1\<lparr>files := fs1\<rparr>))"

text \<open>
  \<^verbatim>\<open>appInit\<close>. Its first statement throws when \<^verbatim>\<open>serverHome\<close> is falsy (undefined or
  the empty string).
\<close>

definition appInit ::
  "('p, 'f) collaborators \<Rightarrow> options \<Rightarrow> 'f world \<Rightarrow> ('p, 'f) bootResult" where
  "appInit c opts w =
     (case serverHome opts of
        None \<Rightarrow> Inl (JSError ''No 'serverHome' defined; bailing out.'', w)
      | Some home \<Rightarrow>
          if home = [] then Inl (JSError ''No 'serverHome' defined; bailing out.'', w)
          else andThen (loadHandlers c opts (startState c home w)) (finishInit c opts home))"

subsection \<open>Example inputs\<close>

text \<open>
  Stand-ins for the collaborators, a file system and an option set, used to run the
  bootstrap on a concrete input.
\<close>

definition demoRegister :: "(string, string) collaborator" where
  "demoRegister x fs =
     Inr (x\<lparr>handlers := handlers x @ [JStr ''GET /server''],
            pendingHandlers := pendingHandlers x @ [''route-a'', ''route-b''],
            setupMethods := setupMethods x @ [''setup-a'']\<rparr>, fs)"

definition demoLoadPlugin :: "string \<Rightarrow> json \<Rightarrow> (string, string) collaborator" where
  "demoLoadPlugin dir pkg x fs =
     Inr (x\<lparr>pendingHandlers := pendingHandlers x @ [''route-c''],
            setupMethods := setupMethods x @ [''setup-b'']\<rparr>, fs)"

definition demoPass :: "(string, string) collaborator" where
  "demoPass x fs = Inr (x, fs)"

definition demoAwait :: "string list \<Rightarrow> (string, string) collaborator" where
  "demoAwait setups x fs = Inr (x, fs)"

definition demoCollaborators :: "(string, string) collaborators" where
  "demoCollaborators =
     \<lparr>getLiqHome = ''/home/liq/.liq'', registerHandlers = demoRegister,
      loadPlugins = demoPass, loadPlugin = demoLoadPlugin, initServerSettings = demoPass,
      depRunnerAwait = demoAwait\<rparr>"

definition demoFiles :: fileSystem where
  "demoFiles =
     [''/srv/app/server-settings.yaml'' \<mapsto> JObj [(''registries'', JArr [JStr ''example.org/registry.yaml''])],
      ''/plugins/one/package.json'' \<mapsto> JObj [(''name'', JStr ''one'')]]"

definition demoOptions :: options where
  "demoOptions =
     \<lparr>apiSpecPath = None, noAPIUpdate = False, pluginPaths = Some [''/plugins/one''],
      serverHome = Some ''/srv/app'', skipCorePlugins = True\<rparr>"

section \<open>Properties\<close>

subsection \<open>Command registry\<close>

lemma setProp_same: "map_of (props obj) k = Some v \<Longrightarrow> setProp obj k v = obj"
  by (cases obj) (simp add: setProp_def update_triv)

lemma own_setProp:
  "map_of (props (setProp obj k v)) k' = (if k' = k then Some v else map_of (props obj) k')"
  by (simp add: setProp_def update_conv')

lemma callable_setProp: "callable (setProp obj k v) = callable obj"
  by (simp add: setProp_def)

lemma getProp_Undefined:
  "(getProp rt intact obj k = Undefined)
     = (map_of (props obj) k = None \<and> intact \<and> \<not> rt (kindOf obj) k)"
  by (simp add: getProp_def split: option.splits)

lemma walkPath_Cons_own:
  assumes "map_of (props t) b = Some c"
  shows "walkPath rt intact (b # bs) q t
           = (fst (walkPath rt intact bs q c), setProp t b (snd (walkPath rt intact bs q c)))"
  using assms by (simp add: hasProp_def getProp_def split: prod.splits)

lemma walkPath_Cons_new:
  assumes "map_of (props t) b = None" and "intact" and "\<not> rt (kindOf t) b"
  shows "walkPath rt intact (b # bs) q t
           = (fst (walkPath rt intact bs q emptyObj),
              setProp t b (snd (walkPath rt intact bs q emptyObj)))"
  using assms by (simp add: hasProp_def getProp_def split: prod.splits)

lemma walkPath_Cons_builtin:
  assumes "map_of (props t) b = None" and "\<not> intact \<or> rt (kindOf t) b"
  shows "walkPath rt intact (b # bs) q t = (LeftTrie, t)"
  using assms by (auto simp: hasProp_def getProp_def)

declare walkPath.simps(2) [simp del]

lemma walkPath_Cons_cases:
  obtains c where "map_of (props t) b = Some c"
      "walkPath rt intact (b # bs) q t
         = (fst (walkPath rt intact bs q c), setProp t b (snd (walkPath rt intact bs q c)))"
  | "map_of (props t) b = None"
      "walkPath rt intact (b # bs) q t
         = (fst (walkPath rt intact bs q emptyObj),
            setProp t b (snd (walkPath rt intact bs q emptyObj)))"
  | "map_of (props t) b = None" "walkPath rt intact (b # bs) q t = (LeftTrie, t)"
proof (cases "map_of (props t) b")
  case (Some c)
  with walkPath_Cons_own [OF Some] that(1) show ?thesis by blast
next
  case None
  show ?thesis
  proof (cases "intact \<and> \<not> rt (kindOf t) b")
    case True
    with walkPath_Cons_new [OF None] that(2) None show ?thesis by blast
  next
    case False
    with walkPath_Cons_builtin [OF None] that(3) None show ?thesis by blast
  qed
qed

lemma callable_walkPath: "callable (snd (walkPath rt intact bs q t)) = callable t"
proof (cases bs)
  case Nil
  then show ?thesis by (simp add: callable_setProp split: jsval.splits)
next
  case (Cons b bs')
  show ?thesis
    unfolding Cons
    by (rule walkPath_Cons_cases [of t b rt intact bs' q]) (simp_all add: callable_setProp)
qed

lemma nodeAt_walkPath:
  "nodeAt t ks = Some n \<Longrightarrow>
   \<exists>n'. nodeAt (snd (walkPath rt intact bs q t)) ks = Some n' \<and> callable n' = callable n"
proof (induction bs arbitrary: t ks n)
  case Nil
  show ?case
  proof (cases ks)
    case Nil
    with Nil.prems show ?thesis by (simp add: callable_setProp split: jsval.splits)
  next
    case (Cons k ks')
    with Nil.prems show ?thesis
      by (auto simp: own_setProp getProp_Undefined split: option.splits jsval.splits)
  qed
next
  case (Cons b bs)
  show ?case
  proof (cases ks)
    case Nil
    with Cons.prems callable_walkPath [of rt intact "b # bs" q t] show ?thesis by simp
  next
    case ks: (Cons k ks')
    show ?thesis
    proof (rule walkPath_Cons_cases [of t b rt intact bs q])
      fix c assume c: "map_of (props t) b = Some c"
        and w: "walkPath rt intact (b # bs) q t
           = (fst (walkPath rt intact bs q c), setProp t b (snd (walkPath rt intact bs q c)))"
      show ?thesis
      proof (cases "k = b")
        case False
        with ks Cons.prems w show ?thesis by (simp add: own_setProp split: option.splits)
      next
        case True
        with Cons.prems ks c have "nodeAt c ks' = Some n" by simp
        from Cons.IH [OF this] obtain n' where
          "nodeAt (snd (walkPath rt intact bs q c)) ks' = Some n'" "callable n' = callable n"
          by blast
        with ks True w show ?thesis by (simp add: own_setProp)
      qed
    next
      assume c: "map_of (props t) b = None"
        and w: "walkPath rt intact (b # bs) q t
           = (fst (walkPath rt intact bs q emptyObj),
              setProp t b (snd (walkPath rt intact bs q emptyObj)))"
      from c ks Cons.prems have "k \<noteq> b" by auto
      with ks Cons.prems w show ?thesis by (simp add: own_setProp split: option.splits)
    next
      assume "walkPath rt intact (b # bs) q t = (LeftTrie, t)"
      with Cons.prems show ?thesis by simp
    qed
  qed
qed

lemma parametersAt_nodeAt:
  "parametersAt t path = Option.bind (nodeAt t (path @ [''_parameters''])) callable"
proof -
  have "nodeAt t (path @ [k]) = Option.bind (nodeAt t path) (\<lambda>n. map_of (props n) k)" for k
    by (induction path arbitrary: t) (auto split: option.splits)
  then show ?thesis
    by (auto simp: parametersAt_def split: option.splits)
qed

lemma parametersAt_walkPath:
  assumes "parametersAt t path = Some v"
  shows "parametersAt (snd (walkPath rt intact bs q t)) path = Some v"
proof -
  from assms obtain n where n: "nodeAt t (path @ [''_parameters'']) = Some n" "callable n = Some v"
    by (auto simp: parametersAt_nodeAt split: Option.bind_splits)
  from nodeAt_walkPath [OF n(1), of rt intact bs q] n(2) show ?thesis
    by (auto simp: parametersAt_nodeAt)
qed

lemma trie_addCommandPath:
  "trie (snd (addCommandPath rt bs q reg))
     = snd (walkPath rt (builtinsIntact reg) bs q (trie reg))"
  by (simp add: addCommandPath_def split: prod.splits walkEnd.splits)

lemma parametersAt_afterCalls:
  "parametersAt (trie reg) path = Some v \<Longrightarrow>
   parametersAt (trie (afterCalls rt cs reg)) path = Some v"
  by (induction cs arbitrary: reg) (auto simp: trie_addCommandPath parametersAt_walkPath)

lemma walkPath_registered:
  "walkPath rt intact bs p t = (Attached, t') \<Longrightarrow> parametersAt t' bs = Some p"
proof (induction bs arbitrary: t t')
  case Nil
  then show ?case
    by (auto simp: parametersAt_def own_setProp accessor_def split: jsval.splits)
next
  case (Cons b bs)
  show ?case
  proof (rule walkPath_Cons_cases [of t b rt intact bs p])
    fix c assume "map_of (props t) b = Some c"
      and w: "walkPath rt intact (b # bs) p t
           = (fst (walkPath rt intact bs p c), setProp t b (snd (walkPath rt intact bs p c)))"
    with Cons.prems have "walkPath rt intact bs p c = (Attached, snd (walkPath rt intact bs p c))"
      and t': "t' = setProp t b (snd (walkPath rt intact bs p c))" by (simp_all add: prod_eq_iff)
    from Cons.IH [OF this(1)] t' show ?thesis
      by (simp add: parametersAt_def own_setProp)
  next
    assume "map_of (props t) b = None"
      and w: "walkPath rt intact (b # bs) p t
           = (fst (walkPath rt intact bs p emptyObj),
              setProp t b (snd (walkPath rt intact bs p emptyObj)))"
    with Cons.prems
    have "walkPath rt intact bs p emptyObj = (Attached, snd (walkPath rt intact bs p emptyObj))"
      and t': "t' = setProp t b (snd (walkPath rt intact bs p emptyObj))"
      by (simp_all add: prod_eq_iff)
    from Cons.IH [OF this(1)] t' show ?thesis
      by (simp add: parametersAt_def own_setProp)
  next
    assume "walkPath rt intact (b # bs) p t = (LeftTrie, t)"
    with Cons.prems show ?thesis by simp
  qed
qed

lemma walkPath_duplicate:
  "nodeAt t (bs @ [''_parameters'']) \<noteq> None \<Longrightarrow> walkPath rt intact bs q t = (NonUnique, t)"
proof (induction bs arbitrary: t)
  case Nil
  then show ?case by (auto simp: getProp_def split: option.splits)
next
  case (Cons b bs)
  then obtain c where c: "map_of (props t) b = Some c" "nodeAt c (bs @ [''_parameters'']) \<noteq> None"
    by (auto split: option.splits)
  from Cons.IH [OF c(2)] show ?case
    unfolding walkPath_Cons_own [OF c(1)] by (simp add: setProp_same [OF c(1)])
qed

text \<open>
  C1. Once a call has registered a path and returned, whatever calls follow (returning,
  throwing or escaping into the built-in objects), registering the same segment sequence
  again throws the error \<^verbatim>\<open>Non-unique command path: <path>\<close>, the failed call leaves
  the registry as it found it, and the accessor of the first registration still returns
  the first payload.
\<close>

theorem addCommandPath_duplicate_fails:
  assumes "addCommandPath rt path p reg = (Returned, reg1)" and "reg2 = afterCalls rt cs reg1"
  shows "addCommandPath rt path q reg2 =
           (Threw (JSError (''Non-unique command path: '' @ join ''/'' path)), reg2)
         \<and> parametersAt (trie reg2) path = Some p"
proof -
  from assms(1) have "walkPath rt (builtinsIntact reg) path p (trie reg) = (Attached, trie reg1)"
    by (auto simp: addCommandPath_def split: prod.splits walkEnd.splits)
  then have "parametersAt (trie reg1) path = Some p" by (rule walkPath_registered)
  then have kept: "parametersAt (trie reg2) path = Some p"
    unfolding assms(2) by (rule parametersAt_afterCalls)
  then have "nodeAt (trie reg2) (path @ [''_parameters'']) \<noteq> None"
    by (auto simp: parametersAt_nodeAt split: Option.bind_splits)
  then have "walkPath rt (builtinsIntact reg2) path q (trie reg2) = (NonUnique, trie reg2)"
    by (rule walkPath_duplicate)
  with kept show ?thesis by (simp add: addCommandPath_def)
qed

theorem addCommandPath_duplicate_fails_witness:
  "addCommandPath standardMembers [''server'', ''stop''] ''P'' freshRegistry
     = (Returned,
        \<lparr>trie = JSObj None [(''server'', JSObj None [(''stop'', JSObj None
                  [(''_parameters'', JSObj (Some ''P'') [])])])],
         builtinsIntact = True\<rparr>)
   \<and> addCommandPath standardMembers [''server'', ''stop''] ''Q''
        (afterCalls standardMembers [([''server''], ''R''), ([''toString''], ''S'')]
          \<lparr>trie = JSObj None [(''server'', JSObj None [(''stop'', JSObj None
                    [(''_parameters'', JSObj (Some ''P'') [])])])],
           builtinsIntact = True\<rparr>)
     = (Threw (JSError ''Non-unique command path: server/stop''),
        afterCalls standardMembers [([''server''], ''R''), ([''toString''], ''S'')]
          \<lparr>trie = JSObj None [(''server'', JSObj None [(''stop'', JSObj None
                    [(''_parameters'', JSObj (Some ''P'') [])])])],
           builtinsIntact = True\<rparr>)
   \<and> parametersAt (trie (afterCalls standardMembers [([''server''], ''R''), ([''toString''], ''S'')]
          \<lparr>trie = JSObj None [(''server'', JSObj None [(''stop'', JSObj None
                    [(''_parameters'', JSObj (Some ''P'') [])])])],
           builtinsIntact = True\<rparr>))
        [''server'', ''stop''] = Some ''P''"
proof -
  have h: "addCommandPath standardMembers [''server'', ''stop''] ''P'' freshRegistry
     = (Returned,
        \<lparr>trie = JSObj None [(''server'', JSObj None [(''stop'', JSObj None
                  [(''_parameters'', JSObj (Some ''P'') [])])])],
         builtinsIntact = True\<rparr>)"
    by (simp add: addCommandPath_def freshRegistry_def emptyObj_def accessor_def getProp_def
        hasProp_def setProp_def kindOf_def standardMembers_def walkPath.simps)
  from addCommandPath_duplicate_fails [OF h refl,
      where cs = "[([''server''], ''R''), ([''toString''], ''S'')]" and q = "''Q''"] h
  show ?thesis by simp
qed

lemma addCommandPaths_afterCalls:
  "addCommandPaths rt cs reg = (Returned, reg') \<Longrightarrow> reg' = afterCalls rt cs reg"
proof (induction cs arbitrary: reg)
  case Nil
  then show ?case by simp
next
  case (Cons c cs)
  obtain path p where c: "c = (path, p)" by (cases c)
  obtain o1 reg1 where r: "addCommandPath rt path p reg = (o1, reg1)"
    by (cases "addCommandPath rt path p reg")
  with Cons.prems c have "o1 = Returned" "addCommandPaths rt cs reg1 = (Returned, reg')"
    by (cases o1; simp)+
  from Cons.IH [OF this(2)] r c show ?case by simp
qed

lemma nodeAt_emptyObj: "ks \<noteq> [] \<Longrightarrow> nodeAt emptyObj ks = None"
  by (cases ks) (simp_all add: emptyObj_def)

lemma walkPath_fresh:
  assumes "''_parameters'' \<notin> set bs" and "\<forall>k \<in> set bs. \<not> rt PlainObject k"
    and "\<not> rt PlainObject ''_parameters''"
    and "\<And>ks n. ''_parameters'' \<notin> set ks \<Longrightarrow> nodeAt t ks = Some n \<Longrightarrow> callable n = None"
    and "nodeAt (t :: 'p jsobj) (bs @ [''_parameters'']) = None"
  shows "fst (walkPath rt True bs q t) = Attached"
  using assms
proof (induction bs arbitrary: t)
  case Nil
  from Nil.prems(4) [of "[]" t] have "kindOf t = PlainObject" by (simp add: kindOf_def)
  with Nil.prems(3,5) show ?case
    by (auto simp: getProp_def split: option.splits)
next
  case (Cons b bs)
  from Cons.prems(4) [of "[]" t] have plain: "kindOf t = PlainObject" by (simp add: kindOf_def)
  from Cons.prems(1,2) have b: "b \<noteq> ''_parameters''" "\<not> rt PlainObject b"
    and rest: "''_parameters'' \<notin> set bs" "\<forall>k \<in> set bs. \<not> rt PlainObject k" by auto
  show ?case
  proof (cases "map_of (props t) b")
    case None
    have "fst (walkPath rt True bs q (emptyObj :: 'p jsobj)) = Attached"
    proof (rule Cons.IH [where t = emptyObj, OF rest Cons.prems(3)])
      show "nodeAt (emptyObj :: 'p jsobj) (bs @ [''_parameters'']) = None"
        by (simp add: nodeAt_emptyObj)
    next
      fix ks n assume "nodeAt (emptyObj :: 'p jsobj) ks = Some n"
      then show "callable n = None" by (cases ks) (auto simp: emptyObj_def)
    qed
    with None plain b show ?thesis
      by (simp add: walkPath_Cons_new)
  next
    case (Some c)
    with Cons.prems(5) have f: "nodeAt c (bs @ [''_parameters'']) = None" by simp
    have "fst (walkPath rt True bs q c) = Attached"
    proof (rule Cons.IH [where t = c, OF rest Cons.prems(3) _ f])
      fix ks n assume "''_parameters'' \<notin> set ks" "nodeAt c ks = Some n"
      with Cons.prems(4) [of "b # ks" n] Some b show "callable n = None" by simp
    qed
    with Some show ?thesis
      by (simp add: walkPath_Cons_own)
  qed
qed


lemma walkPath_plain_nodes:
  assumes "''_parameters'' \<notin> set bs"
    and "\<And>ks n. ''_parameters'' \<notin> set ks \<Longrightarrow> nodeAt t ks = Some n \<Longrightarrow> callable n = None"
    and "''_parameters'' \<notin> set ks" and "nodeAt (snd (walkPath rt intact bs q (t :: 'p jsobj))) ks = Some n"
  shows "callable n = None"
  using assms
proof (induction bs arbitrary: t ks n)
  case Nil
  show ?case
  proof (cases ks)
    case Nil
    with Nil.prems(4) have "callable n = callable t"
      using callable_walkPath [of rt intact "[]" q t] by simp
    with Nil.prems(2) [of "[]" t] show ?thesis by simp
  next
    case (Cons k ks')
    with Nil.prems(3) have "k \<noteq> ''_parameters''" by auto
    with Cons Nil.prems(4) have "nodeAt t ks = Some n"
      by (auto simp: own_setProp split: jsval.splits)
    with Nil.prems(2,3) show ?thesis by blast
  qed
next
  case (Cons b bs)
  from Cons.prems(1) have b: "b \<noteq> ''_parameters''" and rest: "''_parameters'' \<notin> set bs" by auto
  show ?case
  proof (cases ks)
    case Nil
    with Cons.prems(4) have "callable n = callable t"
      using callable_walkPath [of rt intact "b # bs" q t] by simp
    with Cons.prems(2) [of "[]" t] show ?thesis by simp
  next
    case ks: (Cons k ks')
    with Cons.prems(3) have ks': "''_parameters'' \<notin> set ks'" by auto
    show ?thesis
    proof (rule walkPath_Cons_cases [of t b rt intact bs q])
      fix c assume c: "map_of (props t) b = Some c"
        and w: "walkPath rt intact (b # bs) q t
           = (fst (walkPath rt intact bs q c), setProp t b (snd (walkPath rt intact bs q c)))"
      show ?thesis
      proof (cases "k = b")
        case True
        with Cons.prems(4) ks w have n: "nodeAt (snd (walkPath rt intact bs q c)) ks' = Some n"
          by (simp add: own_setProp)
        show ?thesis
        proof (rule Cons.IH [OF rest _ ks' n])
          fix js m assume "''_parameters'' \<notin> set js" "nodeAt c js = Some m"
          with Cons.prems(2) [of "b # js" m] c b show "callable m = None" by simp
        qed
      next
        case False
        with Cons.prems(4) ks w have "nodeAt t ks = Some n"
          by (simp add: own_setProp)
        with Cons.prems(2,3) show ?thesis by blast
      qed
    next
      assume c: "map_of (props t) b = None"
        and w: "walkPath rt intact (b # bs) q t
           = (fst (walkPath rt intact bs q emptyObj),
              setProp t b (snd (walkPath rt intact bs q emptyObj)))"
      show ?thesis
      proof (cases "k = b")
        case True
        with Cons.prems(4) ks w
        have n: "nodeAt (snd (walkPath rt intact bs q emptyObj)) ks' = Some n"
          by (simp add: own_setProp)
        show ?thesis
        proof (rule Cons.IH [OF rest _ ks' n])
          fix js m assume "nodeAt (emptyObj :: 'p jsobj) js = Some m"
          then show "callable m = None" by (cases js) (auto simp: emptyObj_def)
        qed
      next
        case False
        with Cons.prems(4) ks w have "nodeAt t ks = Some n"
          by (simp add: own_setProp)
        with Cons.prems(2,3) show ?thesis by blast
      qed
    next
      assume "walkPath rt intact (b # bs) q t = (LeftTrie, t)"
      with Cons.prems(2,3,4) show ?thesis by auto
    qed
  qed
qed

lemma walkPath_other:
  assumes "''_parameters'' \<notin> set bs" and "''_parameters'' \<notin> set ks" and "ks \<noteq> bs"
  shows "(nodeAt (snd (walkPath rt intact bs q (t :: 'p jsobj))) (ks @ [''_parameters'']) = None)
         = (nodeAt t (ks @ [''_parameters'']) = None)"
  using assms
proof (induction bs arbitrary: t ks)
  case Nil
  then obtain k ks' where "ks = k # ks'" "k \<noteq> ''_parameters''"
    by (cases ks) auto
  then show ?case by (auto simp: own_setProp split: jsval.splits)
next
  case (Cons b bs)
  show ?case
  proof (rule walkPath_Cons_cases [of t b rt intact bs q])
    assume "walkPath rt intact (b # bs) q t = (LeftTrie, t)"
    then show ?thesis by simp
  next
    fix c assume c: "map_of (props t) b = Some c"
      and w: "walkPath rt intact (b # bs) q t
           = (fst (walkPath rt intact bs q c), setProp t b (snd (walkPath rt intact bs q c)))"
    show ?thesis
    proof (cases ks)
      case Nil
      with Cons.prems w show ?thesis by (auto simp: own_setProp)
    next
      case ks: (Cons k ks')
      show ?thesis
      proof (cases "k = b")
        case False
        with ks w show ?thesis by (simp add: own_setProp)
      next
        case True
        with ks Cons.prems have "''_parameters'' \<notin> set bs" "''_parameters'' \<notin> set ks'" "ks' \<noteq> bs"
          by auto
        from Cons.IH [OF this, of c] c ks True w show ?thesis by (simp add: own_setProp)
      qed
    qed
  next
    assume c: "map_of (props t) b = None"
      and w: "walkPath rt intact (b # bs) q t
           = (fst (walkPath rt intact bs q emptyObj),
              setProp t b (snd (walkPath rt intact bs q emptyObj)))"
    show ?thesis
    proof (cases ks)
      case Nil
      with Cons.prems w show ?thesis by (auto simp: own_setProp)
    next
      case ks: (Cons k ks')
      show ?thesis
      proof (cases "k = b")
        case False
        with ks w show ?thesis by (simp add: own_setProp)
      next
        case True
        with ks Cons.prems have p: "''_parameters'' \<notin> set bs" "''_parameters'' \<notin> set ks'" "ks' \<noteq> bs"
          by auto
        have "nodeAt (emptyObj :: 'p jsobj) (ks' @ [''_parameters'']) = None"
          by (simp add: nodeAt_emptyObj)
        with Cons.IH [OF p, of emptyObj]
        have "nodeAt (snd (walkPath rt intact bs q emptyObj)) (ks' @ [''_parameters'']) = None"
          by simp
        with c ks True w show ?thesis by (simp add: own_setProp)
      qed
    qed
  qed
qed

lemma addCommandPaths_all:
  assumes "distinct (map fst cs)"
    and "\<forall>c \<in> set cs. \<forall>k \<in> set (fst c). k \<noteq> ''_parameters'' \<and> \<not> rt PlainObject k"
    and "\<not> rt PlainObject ''_parameters''"
    and "builtinsIntact reg"
    and "\<And>ks n. ''_parameters'' \<notin> set ks \<Longrightarrow> nodeAt (trie reg) ks = Some n \<Longrightarrow> callable n = None"
    and "\<forall>c \<in> set cs. nodeAt (trie (reg :: 'p registry)) (fst c @ [''_parameters'']) = None"
  shows "\<exists>reg'. addCommandPaths rt cs reg = (Returned, reg')
            \<and> (\<forall>c \<in> set cs. parametersAt (trie reg') (fst c) = Some (snd c))"
  using assms
proof (induction cs arbitrary: reg)
  case Nil
  then show ?case by simp
next
  case (Cons c cs)
  obtain path p where c: "c = (path, p)" by (cases c)
  from Cons.prems(2) c have plain: "''_parameters'' \<notin> set path"
    and members: "\<forall>k \<in> set path. \<not> rt PlainObject k" by auto
  from Cons.prems(6) c have fresh: "nodeAt (trie reg) (path @ [''_parameters'']) = None" by simp
  define t1 where "t1 = snd (walkPath rt True path p (trie reg))"
  have "fst (walkPath rt True path p (trie reg)) = Attached"
    by (rule walkPath_fresh [where rt = rt and bs = path and t = "trie reg",
          OF plain members Cons.prems(3) Cons.prems(5) fresh])
  then have w: "walkPath rt True path p (trie reg) = (Attached, t1)"
    by (simp add: t1_def prod_eq_iff)
  with Cons.prems(4) have step: "addCommandPath rt path p reg = (Returned, reg\<lparr>trie := t1\<rparr>)"
    by (simp add: addCommandPath_def)
  have "\<exists>reg'. addCommandPaths rt cs (reg\<lparr>trie := t1\<rparr>) = (Returned, reg')
            \<and> (\<forall>d \<in> set cs. parametersAt (trie reg') (fst d) = Some (snd d))"
  proof (rule Cons.IH)
    show "distinct (map fst cs)" using Cons.prems(1) by simp
    show "\<forall>d \<in> set cs. \<forall>k \<in> set (fst d). k \<noteq> ''_parameters'' \<and> \<not> rt PlainObject k"
      using Cons.prems(2) by simp
    show "\<not> rt PlainObject ''_parameters''" by (rule Cons.prems(3))
    show "builtinsIntact (reg\<lparr>trie := t1\<rparr>)" using Cons.prems(4) by simp
    show "callable n = None"
      if "''_parameters'' \<notin> set ks" "nodeAt (trie (reg\<lparr>trie := t1\<rparr>)) ks = Some n" for ks n
      using walkPath_plain_nodes [where rt = rt and intact = True and q = p and t = "trie reg"
          and bs = path and ks = ks and n = n, OF plain Cons.prems(5) that(1)] that(2)
      by (simp add: t1_def)
    show "\<forall>d \<in> set cs. nodeAt (trie (reg\<lparr>trie := t1\<rparr>)) (fst d @ [''_parameters'']) = None"
    proof
      fix d assume d: "d \<in> set cs"
      with Cons.prems(1,2,6) c have "fst d \<noteq> path" "''_parameters'' \<notin> set (fst d)"
        "nodeAt (trie reg) (fst d @ [''_parameters'']) = None" by auto
      with walkPath_other [where rt = rt and intact = True and q = p and t = "trie reg",
          OF plain this(2) this(1)]
      show "nodeAt (trie (reg\<lparr>trie := t1\<rparr>)) (fst d @ [''_parameters'']) = None"
        by (simp add: t1_def)
    qed
  qed
  then obtain reg' where
    r: "addCommandPaths rt cs (reg\<lparr>trie := t1\<rparr>) = (Returned, reg')"
      "\<forall>d \<in> set cs. parametersAt (trie reg') (fst d) = Some (snd d)" by blast
  from walkPath_registered [OF w] have "parametersAt (trie (reg\<lparr>trie := t1\<rparr>)) path = Some p"
    by simp
  then have "parametersAt (trie (afterCalls rt cs (reg\<lparr>trie := t1\<rparr>))) path = Some p"
    by (rule parametersAt_afterCalls)
  with addCommandPaths_afterCalls [OF r(1)] have "parametersAt (trie reg') path = Some p" by simp
  with r step c show ?case by simp
qed

text \<open>
  C2 (amended). Starting from the registry of a fresh bootstrap, with built-in objects
  that supply no member called \<^verbatim>\<open>_parameters\<close>: for every sequence of calls whose segment
  sequences are pairwise distinct and contain no segment that is the reserved key
  \<^verbatim>\<open>_parameters\<close> or the name of a member the built-in objects supply to a plain object
  (such as \<^verbatim>\<open>__proto__\<close>, \<^verbatim>\<open>constructor\<close> or \<^verbatim>\<open>toString\<close>), every call returns, and
  afterwards each registered path yields exactly the payload value passed at its
  registration (the stored reference itself, as the payload type is opaque to the trie).
\<close>

theorem addCommandPaths_distinct:
  assumes "distinct (map fst cs)"
    and "\<forall>c \<in> set cs. \<forall>k \<in> set (fst c). k \<noteq> ''_parameters'' \<and> \<not> rt PlainObject k"
    and "\<not> rt PlainObject ''_parameters''"
  shows "\<exists>reg. addCommandPaths rt cs freshRegistry = (Returned, reg)
             \<and> (\<forall>c \<in> set cs. parametersAt (trie reg) (fst c) = Some (snd c))"
proof (rule addCommandPaths_all [where rt = rt and cs = cs and reg = freshRegistry, OF assms])
  show "builtinsIntact freshRegistry" by (simp add: freshRegistry_def)
  show "callable n = None" if "nodeAt (trie (freshRegistry :: 'a registry)) ks = Some n" for ks n
    using that by (cases ks) (auto simp: freshRegistry_def emptyObj_def)
  show "\<forall>c \<in> set cs. nodeAt (trie (freshRegistry :: 'a registry)) (fst c @ [''_parameters'']) = None"
    by (simp add: freshRegistry_def nodeAt_emptyObj)
qed

text \<open>
  C2 as stated fails: the two distinct paths \<^verbatim>\<open>['a', '_parameters']\<close> and \<^verbatim>\<open>['a']\<close>,
  registered in this order on a fresh registry. The first call stores an object under
  the key \<^verbatim>\<open>_parameters\<close> of node \<^verbatim>\<open>a\<close>, so the terminal check of the second call finds
  \<^verbatim>\<open>frontier._parameters\<close> defined and throws.
\<close>

theorem addCommandPath_distinct_counterexample:
  "[''a'', ''_parameters''] \<noteq> [''a'']
   \<and> addCommandPath standardMembers [''a'', ''_parameters''] ''P'' freshRegistry
       = (Returned,
          \<lparr>trie = JSObj None [(''a'', JSObj None [(''_parameters'', JSObj None
                    [(''_parameters'', JSObj (Some ''P'') [])])])],
           builtinsIntact = True\<rparr>)
   \<and> addCommandPath standardMembers [''a''] ''Q''
        \<lparr>trie = JSObj None [(''a'', JSObj None [(''_parameters'', JSObj None
                  [(''_parameters'', JSObj (Some ''P'') [])])])],
         builtinsIntact = True\<rparr>
       = (Threw (JSError ''Non-unique command path: a''),
          \<lparr>trie = JSObj None [(''a'', JSObj None [(''_parameters'', JSObj None
                    [(''_parameters'', JSObj (Some ''P'') [])])])],
           builtinsIntact = True\<rparr>)"
  by (simp add: addCommandPath_def freshRegistry_def emptyObj_def accessor_def getProp_def
      hasProp_def setProp_def kindOf_def standardMembers_def walkPath.simps)

theorem addCommandPaths_distinct_witness:
  "distinct (map fst [([''server'', ''stop''], ''P''), ([''server''], ''Q''), ([], ''R'')])
   \<and> \<not> standardMembers PlainObject ''server'' \<and> \<not> standardMembers PlainObject ''stop''
   \<and> \<not> standardMembers PlainObject ''_parameters''
   \<and> addCommandPaths standardMembers
        [([''server'', ''stop''], ''P''), ([''server''], ''Q''), ([], ''R'')] freshRegistry
       = (Returned,
          \<lparr>trie = JSObj None
               [(''server'', JSObj None
                   [(''stop'', JSObj None [(''_parameters'', JSObj (Some ''P'') [])]),
                    (''_parameters'', JSObj (Some ''Q'') [])]),
                (''_parameters'', JSObj (Some ''R'') [])],
           builtinsIntact = True\<rparr>)
   \<and> parametersAt (JSObj None
               [(''server'', JSObj None
                   [(''stop'', JSObj None [(''_parameters'', JSObj (Some ''P'') [])]),
                    (''_parameters'', JSObj (Some ''Q'') [])]),
                (''_parameters'', JSObj (Some ''R'') [])]) [''server'', ''stop''] = Some ''P''
   \<and> parametersAt (JSObj None
               [(''server'', JSObj None
                   [(''stop'', JSObj None [(''_parameters'', JSObj (Some ''P'') [])]),
                    (''_parameters'', JSObj (Some ''Q'') [])]),
                (''_parameters'', JSObj (Some ''R'') [])]) [''server''] = Some ''Q''
   \<and> parametersAt (JSObj None
               [(''server'', JSObj None
                   [(''stop'', JSObj None [(''_parameters'', JSObj (Some ''P'') [])]),
                    (''_parameters'', JSObj (Some ''Q'') [])]),
                (''_parameters'', JSObj (Some ''R'') [])]) [] = Some ''R''"
proof -
  have run: "addCommandPaths standardMembers
        [([''server'', ''stop''], ''P''), ([''server''], ''Q''), ([], ''R'')] freshRegistry
       = (Returned,
          \<lparr>trie = JSObj None
               [(''server'', JSObj None
                   [(''stop'', JSObj None [(''_parameters'', JSObj (Some ''P'') [])]),
                    (''_parameters'', JSObj (Some ''Q'') [])]),
                (''_parameters'', JSObj (Some ''R'') [])],
           builtinsIntact = True\<rparr>)"
    by (simp add: addCommandPath_def freshRegistry_def emptyObj_def accessor_def getProp_def
        hasProp_def setProp_def kindOf_def standardMembers_def walkPath.simps)
  have mem: "\<not> standardMembers PlainObject ''server''" "\<not> standardMembers PlainObject ''stop''"
    "\<not> standardMembers PlainObject ''_parameters''"
    by (simp_all add: standardMembers_def)
  from addCommandPaths_distinct [of "[([''server'', ''stop''], ''P''), ([''server''], ''Q''), ([], ''R'')]"
      standardMembers] run mem
  show ?thesis by simp
qed

lemma addCommandPaths_inherited_member:
  "addCommandPaths standardMembers [([''__proto__''], ''P''), ([''a''], ''Q'')] freshRegistry
     = (Escaped, \<lparr>trie = emptyObj, builtinsIntact = False\<rparr>)
   \<and> addCommandPath standardMembers [''a''] ''Q'' \<lparr>trie = emptyObj, builtinsIntact = False\<rparr>
     = (Escaped, \<lparr>trie = emptyObj, builtinsIntact = False\<rparr>)"
  by (simp add: addCommandPath_def freshRegistry_def emptyObj_def getProp_def hasProp_def
      kindOf_def standardMembers_def walkPath.simps)

subsection \<open>Error pipeline: capture\<close>

lemma evict_drop:
  "evict i xs = drop (min (length xs - 1000) ((length xs + 1 - i) div 2)) xs"
proof (induction i xs rule: evict.induct)
  case (1 i errors)
  show ?case
  proof (cases "length errors > 1000 \<and> i < length errors")
    case False
    then have "min (length errors - 1000) ((length errors + 1 - i) div 2) = 0"
      by (auto simp: min_def)
    moreover have "evict i errors = errors"
      using False by (subst evict.simps) auto
    ultimately show ?thesis by simp
  next
    case True
    then have ne: "errors \<noteq> []" by auto
    define n where "n = length errors"
    have ltl: "length (tl errors) = n - 1" by (simp add: n_def)
    have "evict i errors = evict (i + 1) (tl errors)"
      using True by (subst evict.simps) simp
    also have "\<dots> = drop (min (n - 1 - 1000) ((n - 1 + 1 - (i + 1)) div 2)) (tl errors)"
      using "1.IH" [OF True] by (simp only: ltl)
    also have "\<dots> = drop (Suc (min (n - 1 - 1000) ((n - 1 + 1 - (i + 1)) div 2))) errors"
      using ne by (cases errors) simp_all
    also have "Suc (min (n - 1 - 1000) ((n - 1 + 1 - (i + 1)) div 2))
          = min (n - 1000) ((n + 1 - i) div 2)"
    proof -
      from True have a: "n > 1000" "i < n" by (simp_all add: n_def)
      then have "Suc (n - 1 - 1000) = n - 1000" by arith
      moreover from a have "Suc ((n - 1 + 1 - (i + 1)) div 2) = (n + 1 - i) div 2" by arith
      ultimately show ?thesis by (simp only: min_Suc_Suc [symmetric])
    qed
    finally show ?thesis by (simp only: n_def)
  qed
qed

lemma length_evict:
  "length (evict i xs) = length xs - min (length xs - 1000) ((length xs + 1 - i) div 2)"
  by (simp only: evict_drop length_drop)

lemma capture_errors:
  "errorsEphemeral (snd (capture random now error ext))
     = evict 0 (errorsEphemeral ext @
         [\<lparr>recId = makeID 5 random, recMessage = message error, recStack = stack error,
           timestamp = now\<rparr>])"
  by (simp add: capture_def Let_def)

lemma capture_keeps_recent:
  assumes "length (errorsEphemeral ext) \<le> 2000"
  shows "errorsEphemeral (snd (capture random now error ext))
           = drop (length (errorsEphemeral ext) + 1 - 1000)
               (errorsEphemeral ext @
                 [\<lparr>recId = makeID 5 random, recMessage = message error, recStack = stack error,
                   timestamp = now\<rparr>])"
proof -
  define n where "n = length (errorsEphemeral ext)"
  have "min (n + 1 - 1000) ((n + 1 + 1 - 0) div 2) = n + 1 - 1000"
    using assms unfolding n_def [symmetric] by (simp only: min_def) arith
  then show ?thesis
    by (simp only: capture_errors evict_drop length_append list.size n_def) simp
qed

lemma capture_cap_kept:
  assumes "length (errorsEphemeral ext) \<le> 1000"
  shows "length (errorsEphemeral (snd (capture random now error ext))) \<le> 1000"
proof -
  from assms have "length (errorsEphemeral ext) \<le> 2000" by simp
  from capture_keeps_recent [OF this] assms show ?thesis by simp
qed

text \<open>
  C3. The claim asks for at most 1000 records after every append, from every state.
  The loop counter \<open>i\<close> is compared with the shrinking length, so the loop stops after
  about half the records are gone: from a sequence of 2001 records the append leaves
  1001. (\<open>capture_keeps_recent\<close> above: from at most 2000 records the result is the
  most recent 1000, in order; \<open>capture_cap_kept\<close>: the capture stage alone never lets
  the sequence grow beyond 1000.)
\<close>

theorem capture_cap_exceeded:
  "length (errorsEphemeral (snd (capture random now error
      (ext\<lparr>errorsEphemeral := replicate 2001 r\<rparr>)))) = 1001"
proof -
  have "length (replicate 2001 r @ [x]) = 2002" for x :: errorRecord
    by simp
  then show ?thesis
    by (simp only: capture_errors length_evict appExt.select_convs appExt.update_convs) simp
qed

lemma makeID_loop_eq:
  "makeID_loop random len counter result
     = result @ concat (map (\<lambda>k. charAt characters \<lfloor>random k * real (length characters)\<rfloor>)
                          [counter..<len])"
proof (induction random len counter result rule: makeID_loop.induct)
  case (1 random len counter result)
  show ?case
  proof (cases "counter < len")
    case True
    then show ?thesis
      using "1.IH" by (subst makeID_loop.simps) (simp add: upt_conv_Cons)
  next
    case False
    then show ?thesis by (subst makeID_loop.simps) simp
  qed
qed

lemma draw_char:
  assumes "0 \<le> r" and "r < 1"
  shows "\<exists>c \<in> set characters. charAt characters \<lfloor>r * real (length characters)\<rfloor> = [c]"
proof -
  have len: "length characters = 34" by (simp add: characters_def)
  from assms have "0 \<le> r * 34" "r * 34 < 34" by simp_all
  then have b: "0 \<le> \<lfloor>r * 34\<rfloor>" "\<lfloor>r * 34\<rfloor> < 34" by (simp_all add: floor_less_iff)
  then have "nat \<lfloor>r * 34\<rfloor> < length characters" unfolding len by linarith
  then have "characters ! nat \<lfloor>r * 34\<rfloor> \<in> set characters" by (rule nth_mem)
  moreover have "charAt characters \<lfloor>r * real (length characters)\<rfloor> = [characters ! nat \<lfloor>r * 34\<rfloor>]"
    unfolding charAt_def len using b by (simp only: of_nat_numeral) simp
  ultimately show ?thesis by simp
qed

lemma concat_singletons:
  "\<forall>k \<in> set ks. \<exists>c \<in> A. f k = [c] \<Longrightarrow>
     length (concat (map f ks)) = length ks \<and> set (concat (map f ks)) \<subseteq> A"
  by (induction ks) auto

lemma liqID_capture: "liqID (fst (capture random now error ext)) = Some (makeID 5 random)"
  by (simp add: capture_def Let_def)

text \<open>
  C4 (amended). Whenever the draws lie in [0, 1), the generated ID has exactly the
  requested length (5 in the capture stage, which attaches it to the error) and consists
  only of characters of the alphabet \<^verbatim>\<open>abcdefghijkmnopqrstuvwxyz023456789\<close>. Nothing makes two
  IDs distinct.
\<close>

theorem makeID_format:
  assumes "\<forall>k < len. 0 \<le> random k \<and> random k < 1"
  shows "length (makeID len random) = len
         \<and> set (makeID len random) \<subseteq> set ''abcdefghijkmnopqrstuvwxyz023456789''
         \<and> liqID (fst (capture random now error ext)) = Some (makeID 5 random)"
proof -
  have "\<forall>k \<in> set [0..<len]. \<exists>c \<in> set characters.
          charAt characters \<lfloor>random k * real (length characters)\<rfloor> = [c]"
    using assms by (auto intro: draw_char)
  from concat_singletons [OF this] show ?thesis
    by (simp add: makeID_def makeID_loop_eq liqID_capture characters_def [symmetric])
qed

theorem makeID_format_witness:
  "0 \<le> sameDraws 0 \<and> sameDraws 0 < 1 \<and> makeID 5 sameDraws = ''sssss''
   \<and> length (makeID 5 sameDraws) = 5
   \<and> set (makeID 5 sameDraws) \<subseteq> set ''abcdefghijkmnopqrstuvwxyz023456789''"
proof -
  have "makeID 5 sameDraws = ''sssss''"
    by (simp add: makeID_def makeID_loop.simps sameDraws_def characters_def charAt_def)
  moreover have "\<forall>k < 5. 0 \<le> sameDraws k \<and> sameDraws k < 1"
    by (simp add: sameDraws_def)
  ultimately show ?thesis
    using makeID_format [of 5 sameDraws] by (simp add: sameDraws_def)
qed

text \<open>
  C4 as stated fails: two requests captured one after the other, with the random source
  returning 0.5 at each draw, both receive the ID \<^verbatim>\<open>sssss\<close>.
\<close>

theorem correlation_ids_counterexample:
  "liqID (fst (capture sameDraws 1000
       \<lparr>message = ''first'', stack = None, status = None, liqID = None\<rparr>
       (initialExt ''/srv'' JNull :: (unit, unit) appExt))) = Some ''sssss''
   \<and> liqID (fst (capture sameDraws 2000
       \<lparr>message = ''second'', stack = None, status = None, liqID = None\<rparr>
       (snd (capture sameDraws 1000
          \<lparr>message = ''first'', stack = None, status = None, liqID = None\<rparr>
          (initialExt ''/srv'' JNull :: (unit, unit) appExt))))) = Some ''sssss''"
  by (simp add: liqID_capture makeID_def makeID_loop.simps sameDraws_def characters_def charAt_def)

text \<open>
  C10. Running both error middlewares for an exception leaves \<^verbatim>\<open>errorsRetained\<close> as it
  was: the only property of \<^verbatim>\<open>app.ext\<close> that changes is \<^verbatim>\<open>errorsEphemeral\<close>, which becomes a
  suffix of the old sequence extended by the new record.
\<close>

theorem errorPipeline_retained_unchanged:
  "errorsRetained (fst (errorPipeline random now error req res ext)) = errorsRetained ext
   \<and> (\<exists>k. errorsEphemeral (fst (errorPipeline random now error req res ext))
            = drop k (errorsEphemeral ext @
                [\<lparr>recId = makeID 5 random, recMessage = message error, recStack = stack error,
                  timestamp = now\<rparr>]))
   \<and> fst (errorPipeline random now error req res ext)
       = ext\<lparr>errorsEphemeral := errorsEphemeral (fst (errorPipeline random now error req res ext))\<rparr>"
proof -
  have "fst (errorPipeline random now error req res ext) = snd (capture random now error ext)"
    by (simp add: errorPipeline_def split: prod.splits)
  moreover have "snd (capture random now error ext)
      = ext\<lparr>errorsEphemeral := errorsEphemeral (snd (capture random now error ext))\<rparr>"
    by (simp add: capture_def Let_def)
  moreover have "errorsRetained (snd (capture random now error ext)) = errorsRetained ext"
    by (simp add: capture_def Let_def)
  moreover have "\<exists>k. errorsEphemeral (snd (capture random now error ext))
            = drop k (errorsEphemeral ext @
                [\<lparr>recId = makeID 5 random, recMessage = message error, recStack = stack error,
                  timestamp = now\<rparr>])"
    unfolding capture_errors evict_drop by (rule exI) (rule refl)
  ultimately show ?thesis by simp
qed

subsection \<open>Error pipeline: present\<close>

lemma lowerLetter_simps: "\<not> lowerLetter (CHR ''>'')" "\<not> lowerLetter (CHR ''<'')"
  by (simp_all add: lowerLetter_def)

lemma matchTag_tag:
  assumes "name \<noteq> []" and "\<forall>c \<in> set name. lowerLetter c"
  shows "matchTag (CHR ''<'' # name @ CHR ''>'' # rest) = Some rest"
proof -
  have "takeWhile lowerLetter (name @ CHR ''>'' # rest) = name"
    using assms(2) by (simp add: lowerLetter_simps)
  moreover have "dropWhile lowerLetter (name @ CHR ''>'' # rest) = CHR ''>'' # rest"
    using assms(2) by (simp add: lowerLetter_simps)
  ultimately show ?thesis using assms(1) by (simp add: matchTag_def)
qed

lemma stripTags_tag:
  assumes "name \<noteq> []" and "\<forall>c \<in> set name. lowerLetter c"
  shows "stripTags (CHR ''<'' # name @ CHR ''>'' # rest) = stripTags rest"
  by (simp add: matchTag_tag [OF assms])

lemma stripTags_plain: "CHR ''<'' \<notin> set xs \<Longrightarrow> stripTags (xs @ ys) = xs @ stripTags ys"
  by (induction xs) (auto simp: matchTag_def)

lemma stripTags_error: "stripTags (''<error>'' @ s) = stripTags s"
  using stripTags_tag [of "''error''" s] by (simp add: lowerLetter_def)

lemma stripTags_rst: "stripTags (''<rst>'' @ s) = stripTags s"
  using stripTags_tag [of "''rst''" s] by (simp add: lowerLetter_def)

lemma stripTags_em: "stripTags (''<em>'' @ s) = stripTags s"
  using stripTags_tag [of "''em''" s] by (simp add: lowerLetter_def)

lemma stripTags_code: "stripTags (''<code>'' @ s) = stripTags s"
  using stripTags_tag [of "''code''" s] by (simp add: lowerLetter_def)

lemma digitChar_digit: "d < 10 \<Longrightarrow> digitChar d \<in> set ''0123456789''"
proof -
  assume "d < 10"
  then have "d < length ''0123456789''" by simp
  then have "''0123456789'' ! d \<in> set ''0123456789''" by (rule nth_mem)
  then show ?thesis by (simp only: digitChar_def)
qed

lemma showNat_digits: "set (showNat n) \<subseteq> set ''0123456789''"
proof (induction n rule: showNat.induct)
  case (1 n)
  show ?case
  proof (cases "n < 10")
    case True
    with digitChar_digit [of n] show ?thesis by (subst showNat.simps) simp
  next
    case False
    have "n mod 10 < 10" by simp
    from digitChar_digit [OF this] "1.IH" [OF False] False show ?thesis
      by (subst showNat.simps) simp
  qed
qed

lemma showNat_plain: "CHR ''<'' \<notin> set (showNat n)"
  using showNat_digits [of n] by auto

lemma errorSource_plain: "CHR ''<'' \<notin> set (errorSource st)"
  by (simp add: errorSource_def)

lemma statusTable_plain: "\<forall>e \<in> set statusTable. CHR ''<'' \<notin> set (snd e)"
  by (simp add: statusTable_def)

lemma statusText_plain: "CHR ''<'' \<notin> set (orUndefined (statusText st))"
proof (cases "statusText st")
  case None
  then show ?thesis by (simp add: orUndefined_def)
next
  case (Some n)
  then have "(st, n) \<in> set statusTable" by (auto simp: statusText_def dest: map_of_SomeD)
  with statusTable_plain have "CHR ''<'' \<notin> set n" by fastforce
  with Some show ?thesis by (simp add: orUndefined_def)
qed

lemma matchTag_Cons:
  "matchTag (c # r) =
     (if c = CHR ''<'' \<and> takeWhile lowerLetter r \<noteq> []
      then (case dropWhile lowerLetter r of
              [] \<Rightarrow> None
            | d # rest \<Rightarrow> if d = CHR ''>'' then Some rest else None)
      else None)"
  by (simp add: matchTag_def)

lemma matchTag_append:
  assumes "B = [] \<or> (\<not> lowerLetter (hd B) \<and> hd B \<noteq> CHR ''>'')" and "t \<noteq> []"
  shows "matchTag (t @ B) = map_option (\<lambda>r. r @ B) (matchTag t)"
proof -
  from assms(2) obtain c r where t: "t = c # r" by (cases t) auto
  show ?thesis
  proof (cases "\<forall>x \<in> set r. lowerLetter x")
    case True
    then have r: "takeWhile lowerLetter r = r" "dropWhile lowerLetter r = []" by simp_all
    from True assms(1) have rb: "takeWhile lowerLetter (r @ B) = r"
      "dropWhile lowerLetter (r @ B) = B" by (cases B; simp)+
    have "matchTag (c # r) = None"
      by (simp only: matchTag_Cons r list.case if_cancel)
    moreover have "(case B of [] \<Rightarrow> None | d # rest \<Rightarrow> if d = CHR ''>'' then Some rest else None)
        = (None :: string option)"
      using assms(1) by (cases B) auto
    then have "matchTag (c # r @ B) = None"
      by (simp only: matchTag_Cons rb if_cancel)
    ultimately show ?thesis by (simp add: t)
  next
    case False
    then obtain x where "x \<in> set r" "\<not> lowerLetter x" by blast
    then have rb: "takeWhile lowerLetter (r @ B) = takeWhile lowerLetter r"
      "dropWhile lowerLetter (r @ B) = dropWhile lowerLetter r @ B"
      by (simp_all add: takeWhile_append1 dropWhile_append1)
    from False obtain d rest where d: "dropWhile lowerLetter r = d # rest"
      by (cases "dropWhile lowerLetter r") auto
    have "matchTag (c # r @ B) = map_option (\<lambda>r. r @ B) (matchTag (c # r))"
      by (simp only: matchTag_Cons rb d append_Cons list.case) simp
    then show ?thesis by (simp add: t)
  qed
qed

lemma stripTags_append:
  assumes "B = [] \<or> (\<not> lowerLetter (hd B) \<and> hd B \<noteq> CHR ''>'')"
  shows "stripTags (A @ B) = stripTags A @ stripTags B"
proof (induction A rule: stripTags.induct)
  case 1
  show ?case by simp
next
  case (2 c cs)
  have m: "matchTag ((c # cs) @ B) = map_option (\<lambda>r. r @ B) (matchTag (c # cs))"
    by (rule matchTag_append [OF assms]) simp
  show ?case
  proof (cases "matchTag (c # cs)")
    case None
    with m have "matchTag (c # cs @ B) = None" by simp
    with None "2.IH"(1) show ?thesis by simp
  next
    case (Some rest)
    with m have "matchTag (c # cs @ B) = Some (rest @ B)" by simp
    with Some "2.IH"(2) show ?thesis by simp
  qed
qed

lemma hasTag_append:
  assumes "B = [] \<or> (\<not> lowerLetter (hd B) \<and> hd B \<noteq> CHR ''>'')"
  shows "hasTag (A @ B) = (hasTag A \<or> hasTag B)"
proof (induction A)
  case Nil
  show ?case by simp
next
  case (Cons c cs)
  have "matchTag ((c # cs) @ B) = map_option (\<lambda>r. r @ B) (matchTag (c # cs))"
    by (rule matchTag_append [OF assms]) simp
  with Cons show ?case by simp
qed

lemma hasTag_plain_prefix: "CHR ''<'' \<notin> set A \<Longrightarrow> hasTag (A @ B) = hasTag B"
  by (induction A) (auto simp: matchTag_def)

lemma nested_append: "nested ys \<Longrightarrow> nested (xs @ ys)"
  by (induction xs) auto

lemma matchTag_suffix: "matchTag s = Some rest \<Longrightarrow> \<exists>pre. s = pre @ rest"
proof -
  assume a: "matchTag s = Some rest"
  then obtain c r where s: "s = c # r" by (cases s) (auto simp: matchTag_def)
  from a s have "dropWhile lowerLetter r = CHR ''>'' # rest"
    by (auto simp: matchTag_def split: if_splits list.splits)
  then have "r = takeWhile lowerLetter r @ CHR ''>'' # rest"
    by (metis takeWhile_dropWhile_id)
  with s have "s = (c # takeWhile lowerLetter r @ [CHR ''>'']) @ rest" by simp
  then show ?thesis by blast
qed

lemma lowerLetter_not_lt: "lowerLetter x \<Longrightarrow> x \<noteq> CHR ''<''"
  by (auto simp: lowerLetter_def)

lemma stripTags_unnested: "\<not> nested s \<Longrightarrow> \<not> hasTag (stripTags s)"
proof (induction s rule: stripTags.induct)
  case 1
  show ?case by simp
next
  case (2 c cs)
  show ?case
  proof (cases "matchTag (c # cs)")
    case (Some rest)
    from matchTag_suffix [OF Some] obtain pre where "c # cs = pre @ rest" by blast
    with "2.prems" nested_append [of rest pre] have "\<not> nested rest" by auto
    with "2.IH"(2) [OF Some] Some show ?thesis by simp
  next
    case None
    from "2.prems" have nn: "\<not> nestedAt (c # cs)" and "\<not> nested cs" by simp_all
    with "2.IH"(1) [OF None] have tail: "\<not> hasTag (stripTags cs)" by simp
    have "matchTag (c # stripTags cs) = None"
    proof (cases "c = CHR ''<''")
      case False
      then show ?thesis by (simp add: matchTag_def)
    next
      case True
      define L where "L = takeWhile lowerLetter cs"
      define R where "R = dropWhile lowerLetter cs"
      have cs: "cs = L @ R" by (simp add: L_def R_def)
      have L: "\<forall>x \<in> set L. lowerLetter x" unfolding L_def by (auto dest: set_takeWhileD)
      then have Lplain: "CHR ''<'' \<notin> set L" by (auto dest: lowerLetter_not_lt)
      have st: "stripTags cs = L @ stripTags R"
        unfolding cs by (rule stripTags_plain [OF Lplain])
      show ?thesis
      proof (cases R)
        case Nil
        from L have dw: "dropWhile lowerLetter L = []" by simp
        from st Nil have out: "stripTags cs = L" by simp
        show ?thesis by (simp only: out matchTag_Cons dw list.case if_cancel)
      next
        case (Cons d R')
        have d: "\<not> lowerLetter d"
          using Cons hd_dropWhile [of lowerLetter cs] by (simp add: R_def)
        from nn True Cons have dlt: "d \<noteq> CHR ''<''" by (simp add: nestedAt_def R_def)
        then have "stripTags (d # R') = d # stripTags R'" by (simp add: matchTag_def)
        with st Cons have out: "stripTags cs = L @ d # stripTags R'" by simp
        from L d have tw: "takeWhile lowerLetter (L @ d # stripTags R') = L"
          "dropWhile lowerLetter (L @ d # stripTags R') = d # stripTags R'" by simp_all
        from L d have tw0: "takeWhile lowerLetter (L @ d # R') = L"
          "dropWhile lowerLetter (L @ d # R') = d # R'" by simp_all
        from None have "matchTag (c # L @ d # R') = None" by (simp add: cs Cons)
        then have "L = [] \<or> d \<noteq> CHR ''>''"
          unfolding matchTag_Cons tw0 using True by (auto split: if_splits)
        with True out tw show ?thesis
          by (simp only: matchTag_Cons list.case) auto
      qed
    qed
    with tail None show ?thesis by simp
  qed
qed

lemma stripTags_tail: "stripTags (X @ ''<rst>'') = stripTags X"
proof -
  have "stripTags (X @ ''<rst>'') = stripTags X @ stripTags ''<rst>''"
    by (rule stripTags_append) (simp add: lowerLetter_def)
  moreover have "stripTags ''<rst>'' = []" using stripTags_rst [of "[]"] by simp
  ultimately show ?thesis by simp
qed

lemma stripTags_composeMessage_plainBody:
  "stripTags (composeMessage error) = plainBody error"
proof -
  define st where "st = selectStatus error"
  define tl where "tl = (if liqID error = None \<and> truthy (stack error)
       then orUndefined (stack error)
       else ''error ref: '' @ ''<code>'' @ ''/server/errors/'' @ orUndefined (liqID error) @ ''<rst>'')"
  have lit: "CHR ''<'' \<notin> set '' error ''" "CHR ''<'' \<notin> set '': ''"
    "CHR ''<'' \<notin> set [CHR 0x0A, CHR 0x0A]" "CHR ''<'' \<notin> set ''error ref: ''"
    "CHR ''<'' \<notin> set ''/server/errors/''" by simp_all
  note plain = stripTags_plain [OF errorSource_plain] stripTags_plain [OF showNat_plain]
    stripTags_plain [OF statusText_plain]
    stripTags_plain [OF lit(1)] stripTags_plain [OF lit(2)] stripTags_plain [OF lit(3)]
    stripTags_plain [OF lit(4)] stripTags_plain [OF lit(5)]
  have cm: "composeMessage error = ''<error>'' @ errorSource st @ '' error '' @ showNat st @ '': ''
                @ orUndefined (statusText st) @ ''<rst>'' @ [CHR 0x0A, CHR 0x0A]
                @ ''<em>'' @ message error @ ''<rst>'' @ [CHR 0x0A, CHR 0x0A] @ tl"
    by (simp add: composeMessage_def Let_def st_def tl_def)
  have m: "stripTags (message error @ ''<rst>'' @ [CHR 0x0A, CHR 0x0A] @ tl)
      = stripTags (message error) @ stripTags (''<rst>'' @ [CHR 0x0A, CHR 0x0A] @ tl)"
    by (rule stripTags_append) (simp add: lowerLetter_def)
  have t: "stripTags tl = (if liqID error = None \<and> truthy (stack error)
       then stripTags (orUndefined (stack error))
       else ''error ref: /server/errors/'' @ stripTags (orUndefined (liqID error)))"
    unfolding tl_def
    by (simp only: plain stripTags_code stripTags_tail if_distrib [of stripTags] cong: if_cong) simp
  have "stripTags (composeMessage error) = errorSource st @ '' error '' @ showNat st @ '': ''
                @ orUndefined (statusText st) @ [CHR 0x0A, CHR 0x0A]
                @ stripTags (message error) @ [CHR 0x0A, CHR 0x0A] @ stripTags tl"
    unfolding cm
    by (simp only: stripTags_error stripTags_rst stripTags_em plain m)
  then show ?thesis
    unfolding t by (simp add: plainBody_def Let_def st_def)
qed

lemma hasTag_plainBody:
  "hasTag (plainBody error)
     = (hasTag (stripTags (message error)) \<or> hasTag (stripTags (ownTail error)))"
proof -
  define st where "st = selectStatus error"
  define hd where "hd = errorSource st @ '' error '' @ showNat st @ '': ''
                @ orUndefined (statusText st) @ [CHR 0x0A, CHR 0x0A]"
  define tl where "tl = (if liqID error = None \<and> truthy (stack error)
         then stripTags (orUndefined (stack error))
         else ''error ref: /server/errors/'' @ stripTags (orUndefined (liqID error)))"
  have hdp: "CHR ''<'' \<notin> set hd"
    using errorSource_plain [of st] showNat_plain [of st] statusText_plain [of st]
    by (simp add: hd_def)
  have pb: "plainBody error = hd @ stripTags (message error) @ [CHR 0x0A, CHR 0x0A] @ tl"
    by (simp add: plainBody_def Let_def st_def hd_def tl_def)
  have "hasTag (plainBody error) = hasTag (stripTags (message error) @ [CHR 0x0A, CHR 0x0A] @ tl)"
    unfolding pb by (rule hasTag_plain_prefix [OF hdp])
  also have "\<dots> = (hasTag (stripTags (message error)) \<or> hasTag ([CHR 0x0A, CHR 0x0A] @ tl))"
    by (rule hasTag_append) (simp add: lowerLetter_def)
  also have "hasTag ([CHR 0x0A, CHR 0x0A] @ tl) = hasTag tl"
    by (rule hasTag_plain_prefix) simp
  also have "hasTag tl = hasTag (stripTags (ownTail error))"
    using hasTag_plain_prefix [of "''error ref: /server/errors/''" "stripTags (orUndefined (liqID error))"]
    by (simp add: tl_def ownTail_def)
  finally show ?thesis .
qed

lemma showNat_404: "showNat 404 = ''404''"
  by (simp add: showNat.simps digitChar_def)

lemma statusText_404: "statusText 404 = Some ''NotFound''"
  by (simp add: statusText_def statusTable_def)

text \<open>
  C5 (amended). With headers not yet sent: a client for which \<^verbatim>\<open>req.accepts('html')\<close> holds
  is handed on with \<^verbatim>\<open>next(error)\<close> and nothing is sent; otherwise a client accepting
  \<^verbatim>\<open>text/terminal\<close> is sent the composed message as it is, tags included, with content
  type \<^verbatim>\<open>text/terminal\<close>; every other client is sent, with content type \<^verbatim>\<open>text/plain\<close>,
  the result of one left-to-right removal of the matches of \<^verbatim>\<open><[a-z]+>\<close>, which is the
  message without the tags the stage put in, the error's own message and its stack or ID
  having gone through the same removal. That body holds no tag whenever the error's own
  message and its stack or ID have no \<^verbatim>\<open><\<close> that is followed, after lower-case letters
  only, by another \<^verbatim>\<open><\<close>.
\<close>

theorem present_content_negotiation:
  assumes "\<not> headersSent res"
  shows "(accepts req ''html'' \<longrightarrow>
            present error req res = (res\<lparr>statusCode := selectStatus error\<rparr>, Some error))
         \<and> (\<not> accepts req ''html'' \<and> accepts req ''text/terminal'' \<longrightarrow>
            present error req res =
              (res\<lparr>statusCode := selectStatus error, headersSent := True,
                    contentType := Some ''text/terminal'',
                    body := Some (composeMessage error)\<rparr>, None))
         \<and> (\<not> accepts req ''html'' \<and> \<not> accepts req ''text/terminal'' \<longrightarrow>
            present error req res =
              (res\<lparr>statusCode := selectStatus error, headersSent := True,
                    contentType := Some ''text/plain'',
                    body := Some (plainBody error)\<rparr>, None))
         \<and> (\<not> nested (message error) \<and> \<not> nested (ownTail error) \<longrightarrow>
            \<not> hasTag (plainBody error))"
  using assms stripTags_composeMessage_plainBody [of error] hasTag_plainBody [of error]
    stripTags_unnested [of "message error"] stripTags_unnested [of "ownTail error"]
  by (simp add: present_def Let_def)

text \<open>
  C5 as stated fails: an error whose message is \<^verbatim>\<open><<em>em>\<close>, sent to a client that accepts
  neither html nor \<^verbatim>\<open>text/terminal\<close>. The single pass removes the inner \<^verbatim>\<open><em>\<close> and
  resumes behind it, so the body sent as \<^verbatim>\<open>text/plain\<close> carries the tag \<^verbatim>\<open><em>\<close>.
\<close>

theorem present_plain_body_counterexample:
  "present \<lparr>message = ''<<em>em>'', stack = Some ''at handler'', status = Some 404,
             liqID = Some ''k3m9z''\<rparr>
      \<lparr>accepts = (=) ''application/json''\<rparr>
      \<lparr>headersSent = False, statusCode = 200, contentType = None, body = None\<rparr>
     = (\<lparr>headersSent = True, statusCode = 404, contentType = Some ''text/plain'',
         body = Some (''Client error 404: NotFound'' @ [CHR 0x0A, CHR 0x0A] @
                      ''<em>'' @ [CHR 0x0A, CHR 0x0A] @
                      ''error ref: /server/errors/k3m9z'')\<rparr>, None)
   \<and> hasTag (''Client error 404: NotFound'' @ [CHR 0x0A, CHR 0x0A] @
             ''<em>'' @ [CHR 0x0A, CHR 0x0A] @ ''error ref: /server/errors/k3m9z'')"
proof -
  let ?e = "\<lparr>message = ''<<em>em>'', stack = Some ''at handler'', status = Some 404,
             liqID = Some ''k3m9z''\<rparr>"
  let ?res = "\<lparr>headersSent = False, statusCode = 200, contentType = None, body = None\<rparr>"
  have st: "selectStatus ?e = 404" by (simp add: selectStatus_def)
  have m: "stripTags ''<<em>em>'' = ''<em>''" by (simp add: matchTag_def lowerLetter_def)
  have i: "stripTags ''k3m9z'' = ''k3m9z''" using stripTags_plain [of "''k3m9z''" "[]"] by simp
  have pb: "plainBody ?e = ''Client error 404: NotFound'' @ [CHR 0x0A, CHR 0x0A] @
                      ''<em>'' @ [CHR 0x0A, CHR 0x0A] @ ''error ref: /server/errors/k3m9z''"
    by (simp only: plainBody_def Let_def requestError.select_convs orUndefined_def option.case m i st)
       (simp add: showNat_404 statusText_404 errorSource_def)
  have "stripTags (composeMessage ?e) = plainBody ?e"
    by (rule stripTags_composeMessage_plainBody)
  then have p: "present ?e \<lparr>accepts = (=) ''application/json''\<rparr> ?res
      = (\<lparr>headersSent = True, statusCode = 404, contentType = Some ''text/plain'',
          body = Some (plainBody ?e)\<rparr>, None)"
    by (simp add: present_def Let_def st)
  have h: "hasTag (''Client error 404: NotFound'' @ [CHR 0x0A, CHR 0x0A] @
             ''<em>'' @ [CHR 0x0A, CHR 0x0A] @ ''error ref: /server/errors/k3m9z'')"
    by (simp add: matchTag_def lowerLetter_def)
  from p h show ?thesis unfolding pb by simp
qed

theorem present_content_negotiation_witness:
  "\<not> headersSent \<lparr>headersSent = False, statusCode = 200, contentType = None, body = None\<rparr>
   \<and> \<not> nested ''Unexpected token < in JSON'' \<and> \<not> nested ''at <anonymous>''
   \<and> present \<lparr>message = ''Unexpected token < in JSON'', stack = Some ''at <anonymous>'',
               status = Some 404, liqID = None\<rparr>
        \<lparr>accepts = (=) ''text/terminal''\<rparr>
        \<lparr>headersSent = False, statusCode = 200, contentType = None, body = None\<rparr>
      = (\<lparr>headersSent = True, statusCode = 404, contentType = Some ''text/terminal'',
          body = Some (''<error>Client error 404: NotFound<rst>'' @ [CHR 0x0A, CHR 0x0A] @
                       ''<em>Unexpected token < in JSON<rst>'' @ [CHR 0x0A, CHR 0x0A] @
                       ''at <anonymous>'')\<rparr>, None)
   \<and> present \<lparr>message = ''Unexpected token < in JSON'', stack = Some ''at <anonymous>'',
               status = Some 404, liqID = None\<rparr>
        \<lparr>accepts = (=) ''application/json''\<rparr>
        \<lparr>headersSent = False, statusCode = 200, contentType = None, body = None\<rparr>
      = (\<lparr>headersSent = True, statusCode = 404, contentType = Some ''text/plain'',
          body = Some (''Client error 404: NotFound'' @ [CHR 0x0A, CHR 0x0A] @
                       ''Unexpected token < in JSON'' @ [CHR 0x0A, CHR 0x0A] @
                       ''at '')\<rparr>, None)
   \<and> \<not> hasTag (''Client error 404: NotFound'' @ [CHR 0x0A, CHR 0x0A] @
                ''Unexpected token < in JSON'' @ [CHR 0x0A, CHR 0x0A] @ ''at '')
   \<and> present \<lparr>message = ''Unexpected token < in JSON'', stack = Some ''at <anonymous>'',
               status = Some 404, liqID = None\<rparr>
        \<lparr>accepts = (=) ''html''\<rparr>
        \<lparr>headersSent = False, statusCode = 200, contentType = None, body = None\<rparr>
      = (\<lparr>headersSent = False, statusCode = 404, contentType = None, body = None\<rparr>,
         Some \<lparr>message = ''Unexpected token < in JSON'', stack = Some ''at <anonymous>'',
               status = Some 404, liqID = None\<rparr>)"
proof -
  let ?e = "\<lparr>message = ''Unexpected token < in JSON'', stack = Some ''at <anonymous>'',
               status = Some 404, liqID = None\<rparr>"
  let ?res = "\<lparr>headersSent = False, statusCode = 200, contentType = None, body = None\<rparr>"
  have h: "\<not> headersSent ?res" by simp
  have st: "selectStatus ?e = 404" by (simp add: selectStatus_def)
  have n: "\<not> nested ''Unexpected token < in JSON''" "\<not> nested ''at <anonymous>''"
    by (simp_all add: nestedAt_def lowerLetter_def)
  have m: "stripTags ''Unexpected token < in JSON'' = ''Unexpected token < in JSON''"
    by (simp add: matchTag_def lowerLetter_def)
  have i: "stripTags ''at <anonymous>'' = ''at ''"
    by (simp add: matchTag_def lowerLetter_def)
  have tr: "truthy (Some ''at <anonymous>'')" by (simp add: truthy_def)
  have msg: "composeMessage ?e = ''<error>Client error 404: NotFound<rst>'' @ [CHR 0x0A, CHR 0x0A] @
                       ''<em>Unexpected token < in JSON<rst>'' @ [CHR 0x0A, CHR 0x0A] @
                       ''at <anonymous>''"
    by (simp add: composeMessage_def st showNat_404 statusText_404 errorSource_def
        orUndefined_def truthy_def)
  have pb: "plainBody ?e = ''Client error 404: NotFound'' @ [CHR 0x0A, CHR 0x0A] @
                       ''Unexpected token < in JSON'' @ [CHR 0x0A, CHR 0x0A] @ ''at ''"
    by (simp only: plainBody_def Let_def requestError.select_convs orUndefined_def option.case
          m i st tr simp_thms if_True)
       (simp add: showNat_404 statusText_404 errorSource_def)
  have ot: "ownTail ?e = ''at <anonymous>''"
    by (simp add: ownTail_def orUndefined_def truthy_def)
  from present_content_negotiation [OF h, of "\<lparr>accepts = (=) ''text/terminal''\<rparr>" ?e]
  have a: "present ?e \<lparr>accepts = (=) ''text/terminal''\<rparr> ?res =
      (?res\<lparr>statusCode := selectStatus ?e, headersSent := True,
            contentType := Some ''text/terminal'', body := Some (composeMessage ?e)\<rparr>, None)"
    by simp
  from present_content_negotiation [OF h, of "\<lparr>accepts = (=) ''application/json''\<rparr>" ?e] n
  have b: "present ?e \<lparr>accepts = (=) ''application/json''\<rparr> ?res =
      (?res\<lparr>statusCode := selectStatus ?e, headersSent := True,
            contentType := Some ''text/plain'', body := Some (plainBody ?e)\<rparr>, None)"
    and t: "\<not> hasTag (plainBody ?e)"
    by (simp_all add: ot)
  from present_content_negotiation [OF h, of "\<lparr>accepts = (=) ''html''\<rparr>" ?e]
  have c: "present ?e \<lparr>accepts = (=) ''html''\<rparr> ?res =
      (?res\<lparr>statusCode := selectStatus ?e\<rparr>, Some ?e)"
    by simp
  from t have t': "\<not> hasTag (''Client error 404: NotFound'' @ [CHR 0x0A, CHR 0x0A] @
                ''Unexpected token < in JSON'' @ [CHR 0x0A, CHR 0x0A] @ ''at '')"
    unfolding pb .
  show ?thesis
    unfolding a b c msg pb st using n t' by simp
qed

lemma statusText_none_iff:
  "(statusText code = None)
     = (code \<notin> {400..418} \<union> {421..426} \<union> {428, 429, 431, 451} \<union> {500..511})"
proof -
  have "(statusText code = None) = (code \<notin> fst ` set statusTable)"
    by (simp add: statusText_def map_of_eq_None_iff)
  also have "fst ` set statusTable
      = set [400..<419] \<union> set [421..<427] \<union> {428, 429, 431, 451} \<union> set [500..<512]"
    by (simp add: statusTable_def upt_rec) blast
  also have "\<dots> = {400..418} \<union> {421..426} \<union> {428, 429, 431, 451} \<union> {500..511}"
    by (simp only: set_upt) auto
  finally show ?thesis .
qed

text \<open>
  C6. The status name is read from the \<^verbatim>\<open>statusText\<close> table with no fallback, where the
  class next to it falls back to \<^verbatim>\<open>Unknown\<close>: an exception declaring a status the table
  does not list (302 here; the table lists 400 to 418, 421 to 426, 428, 429, 431, 451 and
  500 to 511) is sent a body that reads \<^verbatim>\<open>Unknown error 302: undefined\<close> where a status
  name belongs. Likewise the reference is composed whenever the stack is not used: an
  exception with neither correlation ID nor stack is sent a reference to
  \<^verbatim>\<open>/server/errors/undefined\<close>, neither a pointer to a record nor a stack.
\<close>

theorem present_status_name_undefined:
  "statusText 302 = None
   \<and> present \<lparr>message = ''moved'', stack = Some ''at handler'', status = Some 302,
               liqID = Some ''k3m9z''\<rparr>
        \<lparr>accepts = (=) ''text/terminal''\<rparr>
        \<lparr>headersSent = False, statusCode = 200, contentType = None, body = None\<rparr>
      = (\<lparr>headersSent = True, statusCode = 302, contentType = Some ''text/terminal'',
          body = Some (''<error>Unknown error 302: undefined<rst>'' @ [CHR 0x0A, CHR 0x0A] @
                       ''<em>moved<rst>'' @ [CHR 0x0A, CHR 0x0A] @
                       ''error ref: <code>/server/errors/k3m9z<rst>'')\<rparr>, None)
   \<and> present \<lparr>message = ''no such item'', stack = None, status = Some 404, liqID = None\<rparr>
        \<lparr>accepts = (=) ''text/terminal''\<rparr>
        \<lparr>headersSent = False, statusCode = 200, contentType = None, body = None\<rparr>
      = (\<lparr>headersSent = True, statusCode = 404, contentType = Some ''text/terminal'',
          body = Some (''<error>Client error 404: NotFound<rst>'' @ [CHR 0x0A, CHR 0x0A] @
                       ''<em>no such item<rst>'' @ [CHR 0x0A, CHR 0x0A] @
                       ''error ref: <code>/server/errors/undefined<rst>'')\<rparr>, None)"
proof -
  have n: "showNat 302 = ''302''" by (simp add: showNat.simps digitChar_def)
  have t: "statusText 302 = None" by (simp add: statusText_def statusTable_def)
  show ?thesis
    by (simp add: present_def composeMessage_def selectStatus_def errorSource_def
        orUndefined_def truthy_def n t showNat_404 statusText_404)
qed

subsection \<open>Bootstrap\<close>

text \<open>
  C7. When \<^verbatim>\<open>serverHome\<close> is missing (or empty), \<^verbatim>\<open>appInit\<close> throws
  \<^verbatim>\<open>No 'serverHome' defined; bailing out.\<close> and returns no application; the world is
  the one it was called in: no event (handler registration, plugin load) has happened
  and no file has changed.
\<close>

theorem appInit_no_serverHome:
  assumes "serverHome opts = None \<or> serverHome opts = Some []"
  shows "appInit c opts w = Inl (JSError ''No 'serverHome' defined; bailing out.'', w)"
  using assms by (auto simp: appInit_def)

theorem appInit_no_serverHome_witness:
  "serverHome (demoOptions\<lparr>serverHome := None\<rparr>) = None
   \<and> appInit demoCollaborators (demoOptions\<lparr>serverHome := None\<rparr>) \<lparr>files = demoFiles, events = []\<rparr>
       = Inl (JSError ''No 'serverHome' defined; bailing out.'', \<lparr>files = demoFiles, events = []\<rparr>)"
  using appInit_no_serverHome [of "demoOptions\<lparr>serverHome := None\<rparr>" demoCollaborators
      "\<lparr>files = demoFiles, events = []\<rparr>"]
  by simp








lemma getServerSettings_arguments:
  "getServerSettings arguments liqHome fs = getServerSettings [] liqHome fs"
  by (simp add: getServerSettings_def)

lemma getServerSettings_absent:
  assumes "fs (pathJoin liqHome ''server-settings.yaml'') = None"
  shows "getServerSettings arguments liqHome fs
           = (JObj [(''registries'', JArr [])],
              fs(pathJoin liqHome ''server-settings.yaml'' \<mapsto> JObj [(''registries'', JArr [])]))"
  using assms by (simp add: getServerSettings_def Let_def)

lemma getServerSettings_present:
  assumes "fs (pathJoin liqHome ''server-settings.yaml'') = Some doc"
  shows "getServerSettings arguments liqHome fs = (if falsy doc then JObj [] else doc, fs)"
  using assms by (simp add: getServerSettings_def)

text \<open>
  C8. The settings are read from, and created in, the directory \<^verbatim>\<open>getLiqHome()\<close> returns
  (the two lemmas above); the \<^verbatim>\<open>serverHome\<close> passed by \<^verbatim>\<open>appInit\<close> is dropped. With
  \<^verbatim>\<open>serverHome = /srv/app\<close> holding a settings file and \<^verbatim>\<open>getLiqHome() = /home/liq/.liq\<close>
  holding none, the call returns the default \<^verbatim>\<open>{registries: []}\<close>, writes it under
  \<^verbatim>\<open>/home/liq/.liq\<close>, and the file under \<^verbatim>\<open>serverHome\<close> is never read.
\<close>

theorem getServerSettings_ignores_serverHome:
  "demoFiles ''/srv/app/server-settings.yaml''
     = Some (JObj [(''registries'', JArr [JStr ''example.org/registry.yaml''])])
   \<and> getServerSettings [''/srv/app''] ''/home/liq/.liq'' demoFiles
     = (JObj [(''registries'', JArr [])],
        demoFiles(''/home/liq/.liq/server-settings.yaml'' \<mapsto> JObj [(''registries'', JArr [])]))
   \<and> serverSettings (fst (startState demoCollaborators ''/srv/app''
        \<lparr>files = demoFiles, events = []\<rparr>)) = JObj [(''registries'', JArr [])]"
proof -
  have a: "demoFiles (pathJoin ''/home/liq/.liq'' ''server-settings.yaml'') = None"
    by (simp add: demoFiles_def pathJoin_def)
  have b: "pathJoin ''/home/liq/.liq'' ''server-settings.yaml'' = ''/home/liq/.liq/server-settings.yaml''"
    by (simp add: pathJoin_def)
  have c: "demoFiles ''/srv/app/server-settings.yaml''
     = Some (JObj [(''registries'', JArr [JStr ''example.org/registry.yaml''])])"
    by (simp add: demoFiles_def)
  have d: "getLiqHome demoCollaborators = ''/home/liq/.liq''"
    by (simp add: demoCollaborators_def)
  show ?thesis
    by (simp add: c getServerSettings_absent [of demoFiles "''/home/liq/.liq''", OF a] b startState_def d emit_def initialExt_def)
qed

end
